theory Spec2Isabelle
  imports Complex_Main "HOL-Library.Sublist"
begin

section \<open>The orchestration client of \<^verbatim>\<open>no_llm_framework/client/agent.py\<close>\<close>

text \<open>
  The module defines one class, \<^verbatim>\<open>Agent\<close>, whose method \<^verbatim>\<open>stream\<close> asks a language model
  which remote agents to call, calls them, and feeds their answers into the next round, for
  at most three rounds. Everything the class touches outside the module (the language model,
  the A2A card resolver and client, the three Jinja templates, \<^verbatim>\<open>json.loads\<close>) is a field of
  the record \<open>env\<close> below, so every theorem holds for whatever these collaborators do.
  A Python generator is a finite list of items followed by its end, which is either
  exhaustion or a raised exception; the caller of \<^verbatim>\<open>stream\<close> reads it to its end. The
  templates render without exception. A Python \<^verbatim>\<open>str\<close> is a \<open>string\<close>; a \<open>char\<close> stands for
  a code point below 256.
\<close>

subsection \<open>Exceptions\<close>

datatype error =
    JSONDecodeError
  | KeyError
  | TypeError
  | ValidationError
  | ImportError
  | RecursionError
  | External string

type_synonym 'a gen = "'a list \<times> error option"

subsection \<open>Text search: the two regular expressions\<close>

text \<open>
  Both patterns of the module have the shape \<^verbatim>\<open>OPEN(.*?)CLOSE\<close> with \<^verbatim>\<open>re.DOTALL\<close>, where
  \<^verbatim>\<open>OPEN\<close> and \<^verbatim>\<open>CLOSE\<close> are literal texts. \<^verbatim>\<open>re.search\<close> tries start positions from the
  left; at a start position the literal \<^verbatim>\<open>OPEN\<close> must match there, then the lazy group grows
  one character at a time until \<^verbatim>\<open>CLOSE\<close> matches. So the search succeeds at the first
  occurrence of \<^verbatim>\<open>OPEN\<close> that is followed by an occurrence of \<^verbatim>\<open>CLOSE\<close>; when the first
  occurrence of \<^verbatim>\<open>OPEN\<close> has none after it, no later one has, and the search fails.
  Group 1 is the text up to the first \<^verbatim>\<open>CLOSE\<close> after \<^verbatim>\<open>OPEN\<close>.
\<close>

fun split_at_first :: "'a list \<Rightarrow> 'a list \<Rightarrow> ('a list \<times> 'a list) option" where
  "split_at_first pat [] = (if pat = [] then Some ([], []) else None)"
| "split_at_first pat (c # cs) =
     (if prefix pat (c # cs) then Some ([], drop (length pat) (c # cs))
      else case split_at_first pat cs of
             None \<Rightarrow> None
           | Some (before, after) \<Rightarrow> Some (c # before, after))"

definition re_search_group :: "string \<Rightarrow> string \<Rightarrow> string \<Rightarrow> string option" where
  "re_search_group opening closing s =
     (case split_at_first opening s of
        None \<Rightarrow> None
      | Some (_, rest) \<Rightarrow>
          (case split_at_first closing rest of
             None \<Rightarrow> None
           | Some (inner, _) \<Rightarrow> Some inner))"

text \<open>The declarative reading used in the statements: \<open>pat\<close> occurs somewhere in \<open>s\<close>.\<close>

definition occurs :: "'a list \<Rightarrow> 'a list \<Rightarrow> bool" where
  "occurs pat s = (\<exists>a b. s = a @ pat @ b)"

definition json_fence_open :: string where
  "json_fence_open = ''```json\<newline>''"

definition json_fence_close :: string where
  "json_fence_close = ''\<newline>```''"

definition answer_open :: string where
  "answer_open = ''<Answer>''"

definition answer_close :: string where
  "answer_close = ''</Answer>''"

text \<open>
  \<^verbatim>\<open>str.strip()\<close> without argument removes leading and trailing white space. Below code point
  256 the characters with \<^verbatim>\<open>str.isspace\<close> are 9 to 13, 28 to 32, 133 and 160.
\<close>

definition isspace :: "char \<Rightarrow> bool" where
  "isspace c = ((of_char c :: nat) \<in> {9, 10, 11, 12, 13, 28, 29, 30, 31, 32, 133, 160})"

definition strip :: "string \<Rightarrow> string" where
  "strip s = rev (dropWhile isspace (rev (dropWhile isspace s)))"

subsection \<open>Values decoded from JSON\<close>

text \<open>
  What \<^verbatim>\<open>json.loads\<close> returns: \<^verbatim>\<open>None\<close>, a \<^verbatim>\<open>bool\<close>, an \<^verbatim>\<open>int\<close>, a \<^verbatim>\<open>float\<close>, a \<^verbatim>\<open>str\<close>,
  a \<^verbatim>\<open>list\<close> or a \<^verbatim>\<open>dict\<close>. A float is kept as the exact decimal value of its literal (Python
  rounds it to binary64), or as one of the three constants the decoder accepts. A dict is
  kept as the list of its members in the order of the text: a repeated key keeps the
  position of its first occurrence and the value of its last.
\<close>

datatype pyfloat = Decimal rat | NaN | Infinity | NegInfinity

datatype json =
    JNull
  | JBool bool
  | JInt int
  | JFloat pyfloat
  | JString string
  | JArray "json list"
  | JObject "(string \<times> json) list"

text \<open>
  A decimal rounds to the float zero exactly when its magnitude is at most half of the
  smallest subnormal number, \<open>2 ^ 1074\<close> in the denominator (ties go to the even
  neighbour, which is zero).
\<close>

fun float_nonzero :: "pyfloat \<Rightarrow> bool" where
  "float_nonzero (Decimal q) = (\<bar>q\<bar> > 1 / 2 ^ 1075)"
| "float_nonzero NaN = True"
| "float_nonzero Infinity = True"
| "float_nonzero NegInfinity = True"

text \<open>Truth value testing, as in \<^verbatim>\<open>if agents:\<close>.\<close>

fun truthy :: "json \<Rightarrow> bool" where
  "truthy JNull = False"
| "truthy (JBool b) = b"
| "truthy (JInt n) = (n \<noteq> 0)"
| "truthy (JFloat f) = float_nonzero f"
| "truthy (JString s) = (s \<noteq> [])"
| "truthy (JArray xs) = (xs \<noteq> [])"
| "truthy (JObject kvs) = (kvs \<noteq> [])"

text \<open>
  Iteration, as in \<^verbatim>\<open>for agent in agents\<close>: a list gives its elements, a dict its keys in
  insertion order, a string its characters; the other values are not iterable.
\<close>

fun py_iter :: "json \<Rightarrow> error + json list" where
  "py_iter (JArray xs) = Inr xs"
| "py_iter (JObject kvs) = Inr (map JString (rev (remdups (rev (map fst kvs)))))"
| "py_iter (JString s) = Inr (map (\<lambda>c. JString [c]) s)"
| "py_iter _ = Inl TypeError"

text \<open>
  Subscription with a string key, as in \<^verbatim>\<open>agent['name']\<close>: a dict looks the key up and raises
  \<^verbatim>\<open>KeyError\<close> when it is absent; every other value raises \<^verbatim>\<open>TypeError\<close> (a list or a string
  wants an integer index, the rest is not subscriptable).
\<close>

fun subscript :: "json \<Rightarrow> string \<Rightarrow> error + json" where
  "subscript (JObject kvs) k =
     (case map_of (rev kvs) k of None \<Rightarrow> Inl KeyError | Some v \<Rightarrow> Inr v)"
| "subscript _ k = Inl TypeError"

subsection \<open>The types of the A2A library that the module reads\<close>

record agent_card =
  card_name :: string
  card_url :: string

datatype part = TextPart string | FilePart string | DataPart string

record message =
  parts :: "part list"

datatype stream_result =
    Task
  | MessageResult message
  | TaskStatusUpdateEvent "message option"
  | TaskArtifactUpdateEvent

datatype stream_response =
    SendStreamingMessageSuccessResponse stream_result
  | JSONRPCErrorResponse

record agent_answer =
  ans_name :: string
  ans_prompt :: string
  ans_answer :: string

subsection \<open>Collaborators and the agent object\<close>

record env =
  get_agent_card :: "string \<Rightarrow> error + agent_card"
  agents_template :: "agent_card list \<Rightarrow> string"
  agent_answer_template :: "agent_answer list \<Rightarrow> string"
  decide_template :: "string \<Rightarrow> string \<Rightarrow> string \<Rightarrow> string"
  generative_model :: "(string \<Rightarrow> string gen) option"
  json_loads :: "string \<Rightarrow> error + json"
  send_message_streaming :: "agent_card \<Rightarrow> string \<Rightarrow> stream_response gen"

datatype mode = Complete | Stream

text \<open>
  A callback is a Python callable: called on a chunk it returns (\<open>None\<close>) or raises.
\<close>

record agent =
  mode :: mode
  token_stream_callback :: "(string \<Rightarrow> error option) option"
  agent_urls :: "string list option"
  agents_registry :: "string \<rightharpoonup> agent_card"

text \<open>\<^verbatim>\<open>Agent.__init__\<close>: the fourth argument, \<^verbatim>\<open>agent_prompt\<close>, is not stored.\<close>

definition Agent_init ::
  "mode \<Rightarrow> (string \<Rightarrow> error option) option \<Rightarrow> string list option \<Rightarrow> string option \<Rightarrow> agent" where
  "Agent_init m cb urls agent_prompt =
     \<lparr>mode = m, token_stream_callback = cb, agent_urls = urls, agents_registry = Map.empty\<rparr>"

text \<open>\<^verbatim>\<open>Agent()\<close> with every argument at its default.\<close>

definition Agent_default :: agent where
  "Agent_default = Agent_init Stream None None None"

subsection \<open>What a run does: the observable events\<close>

datatype event =
    Resolve string
  | Decide string
  | Callback string
  | Yield string
  | Dispatch agent_card string

fun yields :: "event list \<Rightarrow> string list" where
  "yields [] = []"
| "yields (Yield s # es) = s # yields es"
| "yields (_ # es) = yields es"

fun dispatches :: "event list \<Rightarrow> (agent_card \<times> string) list" where
  "dispatches [] = []"
| "dispatches (Dispatch c m # es) = (c, m) # dispatches es"
| "dispatches (_ # es) = dispatches es"

fun decides :: "event list \<Rightarrow> string list" where
  "decides [] = []"
| "decides (Decide p # es) = p # decides es"
| "decides (_ # es) = decides es"

fun resolves :: "event list \<Rightarrow> string list" where
  "resolves [] = []"
| "resolves (Resolve u # es) = u # resolves es"
| "resolves (_ # es) = resolves es"

subsection \<open>\<^verbatim>\<open>Agent.get_agents\<close>\<close>

text \<open>
  \<^verbatim>\<open>asyncio.gather\<close> starts one card request per address and returns the cards in the order
  of the addresses, or raises. When several requests fail, the one that fails first in
  time is raised; the model takes the first in list order.
\<close>

fun gather :: "(error + 'a) list \<Rightarrow> error + 'a list" where
  "gather [] = Inr []"
| "gather (Inl e # rs) = Inl e"
| "gather (Inr x # rs) = (case gather rs of Inl e \<Rightarrow> Inl e | Inr xs \<Rightarrow> Inr (x # xs))"

text \<open>The dict comprehension \<^verbatim>\<open>{card.name: card for card in agent_cards}\<close>.\<close>

definition registry_of :: "agent_card list \<Rightarrow> (string \<rightharpoonup> agent_card)" where
  "registry_of agent_cards = fold (\<lambda>c m. m(card_name c \<mapsto> c)) agent_cards Map.empty"

definition get_agents ::
  "env \<Rightarrow> agent \<Rightarrow> event list \<times> (error + (string \<rightharpoonup> agent_card) \<times> string)" where
  "get_agents E self =
     (case agent_urls self of
        None \<Rightarrow> ([], Inr (Map.empty, ''''))
      | Some urls \<Rightarrow>
          if urls = [] then ([], Inr (Map.empty, ''''))
          else (map Resolve urls,
                case gather (map (get_agent_card E) urls) of
                  Inl e \<Rightarrow> Inl e
                | Inr agent_cards \<Rightarrow>
                    Inr (registry_of agent_cards, agents_template E agent_cards)))"

subsection \<open>\<^verbatim>\<open>stream_llm\<close>, \<^verbatim>\<open>Agent.call_llm\<close>, \<^verbatim>\<open>Agent.decide\<close>\<close>

text \<open>
  \<open>generative_model\<close> is \<^verbatim>\<open>getattr(genai, 'GenerativeModel', None)\<close>, already applied to the
  model name: it maps a prompt to the texts of the streamed chunks. Without it the generator
  raises \<^verbatim>\<open>ImportError\<close> when it is first advanced.
\<close>

definition stream_llm :: "env \<Rightarrow> string \<Rightarrow> string gen" where
  "stream_llm E prompt =
     (case generative_model E of
        Some model \<Rightarrow> model prompt
      | None \<Rightarrow> ([], Some ImportError))"

definition call_llm :: "env \<Rightarrow> string \<Rightarrow> string gen" where
  "call_llm E prompt = stream_llm E prompt"

text \<open>The event \<open>Decide prompt\<close> records that \<^verbatim>\<open>decide\<close> ran and which prompt it rendered.\<close>

definition decide :: "env \<Rightarrow> string \<Rightarrow> string \<Rightarrow> agent_answer list \<Rightarrow> event list \<times> string gen" where
  "decide E question agents_prompt called_agents =
     (let call_agent_prompt =
            (if called_agents \<noteq> [] then agent_answer_template E called_agents else '''');
          prompt = decide_template E question agents_prompt call_agent_prompt
      in ([Decide prompt], call_llm E prompt))"

subsection \<open>\<^verbatim>\<open>Agent.extract_agents\<close>\<close>

definition extract_agents :: "env \<Rightarrow> string \<Rightarrow> error + json" where
  "extract_agents E response =
     (case re_search_group json_fence_open json_fence_close response of
        Some body \<Rightarrow> json_loads E body
      | None \<Rightarrow> Inr (JArray []))"

subsection \<open>\<^verbatim>\<open>Agent.send_message_to_an_agent\<close>\<close>

text \<open>
  The body of the \<^verbatim>\<open>async for\<close>: the fragments yielded for one chunk of the response stream.
  \<^verbatim>\<open>chunk.root\<close> must be a success response whose result is a status update; its message
  must be present and have a nonempty list of parts; the first part must be a text part
  (of the three kinds of part only the text part has an attribute \<^verbatim>\<open>text\<close>).
\<close>

definition chunk_fragments :: "stream_response \<Rightarrow> string list" where
  "chunk_fragments chunk =
     (case chunk of
        SendStreamingMessageSuccessResponse result \<Rightarrow>
          (case result of
             TaskStatusUpdateEvent msg \<Rightarrow>
               (case msg of
                  None \<Rightarrow> []
                | Some m \<Rightarrow>
                    if parts m \<noteq> [] then
                      (case hd (parts m) of TextPart text \<Rightarrow> [text] | _ \<Rightarrow> [])
                    else [])
           | _ \<Rightarrow> [])
      | JSONRPCErrorResponse \<Rightarrow> [])"

text \<open>
  The request is sent when the generator is first advanced (the event \<open>Dispatch\<close>); the
  message and task identifiers are fresh random values and no part of the model.
\<close>

definition send_message_to_an_agent ::
  "env \<Rightarrow> agent_card \<Rightarrow> string \<Rightarrow> event list \<times> string gen" where
  "send_message_to_an_agent E agent_card msg =
     (case send_message_streaming E agent_card msg of
        (chunks, ending) \<Rightarrow> ([Dispatch agent_card msg], (concat (map chunk_fragments chunks), ending)))"

subsection \<open>\<^verbatim>\<open>Agent.stream\<close>\<close>

text \<open>
  The body shared by the two inner loops: the chunk is added to the accumulated text, handed
  to the callback when there is one, and yielded. The result is the events, the accumulated
  text and the exception of the callback, if it raised.
\<close>

fun relay ::
  "(string \<Rightarrow> error option) option \<Rightarrow> string list \<Rightarrow> event list \<times> string \<times> error option" where
  "relay cb [] = ([], '''', None)"
| "relay cb (chunk # chunks) =
     (case cb of
        None \<Rightarrow>
          (case relay cb chunks of
             (es, text, ending) \<Rightarrow> (Yield chunk # es, chunk @ text, ending))
      | Some f \<Rightarrow>
          (case f chunk of
             Some e \<Rightarrow> ([Callback chunk], chunk, Some e)
           | None \<Rightarrow>
               (case relay cb chunks of
                  (es, text, ending) \<Rightarrow>
                    (Callback chunk # Yield chunk # es, chunk @ text, ending))))"

text \<open>A whole generator: its items are relayed, then its own end is reached.\<close>

definition consume ::
  "(string \<Rightarrow> error option) option \<Rightarrow> string gen \<Rightarrow> event list \<times> string \<times> error option" where
  "consume cb g =
     (case relay cb (fst g) of
        (es, text, None) \<Rightarrow> (es, text, snd g)
      | (es, text, Some e) \<Rightarrow> (es, text, Some e))"

definition agent_begin_marker :: "string \<Rightarrow> string" where
  "agent_begin_marker n = ''<Agent name='' @ [CHR 0x22] @ n @ [CHR 0x22] @ ''>\<newline>''"

definition agent_end_marker :: string where
  "agent_end_marker = ''</Agent>\<newline>''"

definition extract_answer :: "string \<Rightarrow> string" where
  "extract_answer agent_response =
     (case re_search_group answer_open answer_close agent_response of
        Some inner \<Rightarrow> strip inner
      | None \<Rightarrow> agent_response)"

text \<open>
  One pass of \<^verbatim>\<open>for agent in agents\<close>. \<^verbatim>\<open>agent['name']\<close> is read and looked up in the registry
  (whose keys are strings: a list or a dict as key is unhashable, any other value is a key
  that is not there); the begin marker is yielded; \<^verbatim>\<open>agent['prompt']\<close> is read; a prompt that
  is not a string is refused by the type check of \<^verbatim>\<open>TextPart(text=message)\<close> before any
  request; the fragments are relayed; the end marker is yielded; the answer is recorded.
\<close>

definition dispatch_one ::
  "env \<Rightarrow> agent \<Rightarrow> (string \<rightharpoonup> agent_card) \<Rightarrow> json \<Rightarrow> event list \<times> (error + agent_answer)" where
  "dispatch_one E self registry agent =
     (case subscript agent ''name'' of
        Inl e \<Rightarrow> ([], Inl e)
      | Inr (JString n) \<Rightarrow>
          (case registry n of
             None \<Rightarrow> ([], Inl KeyError)
           | Some agent_card \<Rightarrow>
               (case subscript agent ''prompt'' of
                  Inl e \<Rightarrow> ([Yield (agent_begin_marker n)], Inl e)
                | Inr (JString p) \<Rightarrow>
                    (case send_message_to_an_agent E agent_card p of
                       (es0, g) \<Rightarrow>
                         (case consume (token_stream_callback self) g of
                            (es, agent_response, Some e) \<Rightarrow>
                              (Yield (agent_begin_marker n) # es0 @ es, Inl e)
                          | (es, agent_response, None) \<Rightarrow>
                              (Yield (agent_begin_marker n) # es0 @ es @ [Yield agent_end_marker],
                               Inr \<lparr>ans_name = n, ans_prompt = p,
                                    ans_answer = extract_answer agent_response\<rparr>)))
                | Inr _ \<Rightarrow> ([Yield (agent_begin_marker n)], Inl ValidationError)))
      | Inr (JArray _) \<Rightarrow> ([], Inl TypeError)
      | Inr (JObject _) \<Rightarrow> ([], Inl TypeError)
      | Inr _ \<Rightarrow> ([], Inl KeyError))"

text \<open>The loop \<^verbatim>\<open>for agent in agents\<close>: events, the answers appended, and how it ended.\<close>

fun dispatch_all ::
  "env \<Rightarrow> agent \<Rightarrow> (string \<rightharpoonup> agent_card) \<Rightarrow> json list
     \<Rightarrow> event list \<times> agent_answer list \<times> error option" where
  "dispatch_all E self registry [] = ([], [], None)"
| "dispatch_all E self registry (agent # agents) =
     (case dispatch_one E self registry agent of
        (es, Inl e) \<Rightarrow> (es, [], Some e)
      | (es, Inr a) \<Rightarrow>
          (case dispatch_all E self registry agents of
             (es', as, ending) \<Rightarrow> (es @ es', a # as, ending)))"

text \<open>How one pass of \<^verbatim>\<open>for _ in range(3)\<close> ends.\<close>

datatype outcome = Continue | Return | Raise error

definition stream_round ::
  "env \<Rightarrow> agent \<Rightarrow> string \<Rightarrow> agent_answer list \<Rightarrow> event list \<times> agent_answer list \<times> outcome" where
  "stream_round E self question agent_answers =
     (case get_agents E self of
        (es1, Inl e) \<Rightarrow> (es1, agent_answers, Raise e)
      | (es1, Inr (registry, agent_prompt)) \<Rightarrow>
          (case decide E question agent_prompt agent_answers of
             (es2, g) \<Rightarrow>
               (case consume (token_stream_callback self) g of
                  (es3, response, Some e) \<Rightarrow> (es1 @ es2 @ es3, agent_answers, Raise e)
                | (es3, response, None) \<Rightarrow>
                    (case extract_agents E response of
                       Inl e \<Rightarrow> (es1 @ es2 @ es3, agent_answers, Raise e)
                     | Inr agents \<Rightarrow>
                         if truthy agents then
                           (case py_iter agents of
                              Inl e \<Rightarrow> (es1 @ es2 @ es3, agent_answers, Raise e)
                            | Inr selections \<Rightarrow>
                                (case dispatch_all E self registry selections of
                                   (es4, new, Some e) \<Rightarrow>
                                     (es1 @ es2 @ es3 @ es4, agent_answers @ new, Raise e)
                                 | (es4, new, None) \<Rightarrow>
                                     (es1 @ es2 @ es3 @ es4, agent_answers @ new, Continue)))
                         else (es1 @ es2 @ es3, agent_answers, Return)))))"

text \<open>
  \<^verbatim>\<open>for _ in range(n)\<close> around the round; the result is the events of the run, the final
  list \<^verbatim>\<open>agent_answers\<close> and the exception that ended the run, if one did.
\<close>

fun stream_loop ::
  "nat \<Rightarrow> env \<Rightarrow> agent \<Rightarrow> string \<Rightarrow> agent_answer list
     \<Rightarrow> event list \<times> agent_answer list \<times> error option" where
  "stream_loop 0 E self question agent_answers = ([], agent_answers, None)"
| "stream_loop (Suc n) E self question agent_answers =
     (case stream_round E self question agent_answers of
        (es, answers, Raise e) \<Rightarrow> (es, answers, Some e)
      | (es, answers, Return) \<Rightarrow> (es, answers, None)
      | (es, answers, Continue) \<Rightarrow>
          (case stream_loop n E self question answers of
             (es', answers', ending) \<Rightarrow> (es @ es', answers', ending)))"

definition stream :: "env \<Rightarrow> agent \<Rightarrow> string \<Rightarrow> event list \<times> agent_answer list \<times> error option" where
  "stream E self question = stream_loop 3 E self question []"

subsection \<open>A decoder for the concrete runs\<close>

text \<open>
  The theorems below hold for every \<open>json_loads\<close>. The concrete runs need one: \<open>json_decode\<close>
  follows the scanner of Python's \<^verbatim>\<open>json\<close> package (\<^verbatim>\<open>scanstring\<close>, \<^verbatim>\<open>JSONObject\<close>, \<^verbatim>\<open>JSONArray\<close>,
  \<^verbatim>\<open>NUMBER_RE\<close>, the constants \<^verbatim>\<open>NaN\<close>, \<^verbatim>\<open>Infinity\<close> and \<^verbatim>\<open>-Infinity\<close>) on texts of code points below
  256. An escape \<^verbatim>\<open>\uXXXX\<close> above \<^verbatim>\<open>00FF\<close> is no \<open>char\<close> and is answered with an error of
  its own. Python's limits on the digits of an integer and on the depth of nesting are left
  out; the counter of the recursion starts at two steps per character of the text.
\<close>

definition json_ws :: "char \<Rightarrow> bool" where
  "json_ws c = (c = CHR '' '' \<or> c = CHR 0x09 \<or> c = CHR 0x0A \<or> c = CHR 0x0D)"

definition skip_ws :: "string \<Rightarrow> string" where
  "skip_ws s = dropWhile json_ws s"

definition is_digit :: "char \<Rightarrow> bool" where
  "is_digit c = (48 \<le> (of_char c :: nat) \<and> (of_char c :: nat) \<le> 57)"

definition digit_val :: "char \<Rightarrow> nat" where
  "digit_val c = of_char c - 48"

definition digits_val :: "string \<Rightarrow> nat" where
  "digits_val ds = foldl (\<lambda>n d. 10 * n + digit_val d) 0 ds"

definition hex_val :: "char \<Rightarrow> nat option" where
  "hex_val c =
     (let n = (of_char c :: nat) in
      if 48 \<le> n \<and> n \<le> 57 then Some (n - 48)
      else if 65 \<le> n \<and> n \<le> 70 then Some (n - 55)
      else if 97 \<le> n \<and> n \<le> 102 then Some (n - 87)
      else None)"

definition decode_uXXXX :: "string \<Rightarrow> error + char" where
  "decode_uXXXX s =
     (case map hex_val (take 4 s) of
        [Some a, Some b, Some c, Some d] \<Rightarrow>
          if a = 0 \<and> b = 0 then Inr (char_of (16 * c + d))
          else Inl (External ''code point above 255'')
      | _ \<Rightarrow> Inl JSONDecodeError)"

definition backslash :: "char \<Rightarrow> char option" where
  "backslash e =
     (if e = CHR 0x22 then Some (CHR 0x22)
      else if e = CHR 0x5C then Some (CHR 0x5C)
      else if e = CHR ''/'' then Some (CHR ''/'')
      else if e = CHR ''b'' then Some (CHR 0x08)
      else if e = CHR ''f'' then Some (CHR 0x0C)
      else if e = CHR ''n'' then Some (CHR 0x0A)
      else if e = CHR ''r'' then Some (CHR 0x0D)
      else if e = CHR ''t'' then Some (CHR 0x09)
      else None)"

fun scanstring :: "string \<Rightarrow> error + string \<times> string" where
  "scanstring [] = Inl JSONDecodeError"
| "scanstring (c # cs) =
     (if c = CHR 0x22 then Inr ([], cs)
      else if c = CHR 0x5C then
        (case cs of
           [] \<Rightarrow> Inl JSONDecodeError
         | e # cs' \<Rightarrow>
             if e = CHR ''u'' then
               (case decode_uXXXX cs' of
                  Inl err \<Rightarrow> Inl err
                | Inr ch \<Rightarrow>
                    (case scanstring (drop 4 cs') of
                       Inl err \<Rightarrow> Inl err
                     | Inr (t, r) \<Rightarrow> Inr (ch # t, r)))
             else
               (case backslash e of
                  None \<Rightarrow> Inl JSONDecodeError
                | Some ch \<Rightarrow>
                    (case scanstring cs' of
                       Inl err \<Rightarrow> Inl err
                     | Inr (t, r) \<Rightarrow> Inr (ch # t, r))))
      else if (of_char c :: nat) < 32 then Inl JSONDecodeError
      else
        (case scanstring cs of
           Inl err \<Rightarrow> Inl err
         | Inr (t, r) \<Rightarrow> Inr (c # t, r)))"

definition scale10 :: "rat \<Rightarrow> int \<Rightarrow> rat" where
  "scale10 q e = (if 0 \<le> e then q * 10 ^ nat e else q / 10 ^ nat (- e))"

definition match_number :: "string \<Rightarrow> (json \<times> string) option" where
  "match_number s =
     (let neg = (s \<noteq> [] \<and> hd s = CHR ''-'');
          s1 = (if neg then tl s else s);
          ip = (if s1 \<noteq> [] \<and> hd s1 = CHR ''0'' then ''0'' else takeWhile is_digit s1)
      in if ip = [] then None
         else
           let s2 = drop (length ip) s1;
               fp = (if s2 \<noteq> [] \<and> hd s2 = CHR ''.'' then takeWhile is_digit (tl s2) else []);
               s3 = (if fp = [] then s2 else drop (Suc (length fp)) s2);
               has_e = (s3 \<noteq> [] \<and> (hd s3 = CHR ''e'' \<or> hd s3 = CHR ''E''));
               s4 = (if has_e then tl s3 else s3);
               eneg = (has_e \<and> s4 \<noteq> [] \<and> hd s4 = CHR ''-'');
               s5 = (if has_e \<and> s4 \<noteq> [] \<and> (hd s4 = CHR ''-'' \<or> hd s4 = CHR ''+'') then tl s4 else s4);
               ep = (if has_e then takeWhile is_digit s5 else []);
               rest = (if ep = [] then s3 else drop (length ep) s5);
               sgn = (if neg then - 1 else 1)
           in if fp = [] \<and> ep = [] then Some (JInt (sgn * int (digits_val ip)), rest)
              else
                let mant = of_nat (digits_val (ip @ fp)) :: rat;
                    ex = (if eneg then - int (digits_val ep) else int (digits_val ep)) - int (length fp)
                in Some (JFloat (Decimal (of_int sgn * scale10 mant ex)), rest))"

fun scan_once :: "nat \<Rightarrow> string \<Rightarrow> error + json \<times> string"
  and parse_array :: "nat \<Rightarrow> string \<Rightarrow> error + json list \<times> string"
  and parse_object :: "nat \<Rightarrow> string \<Rightarrow> error + (string \<times> json) list \<times> string" where
  "scan_once 0 s = Inl RecursionError"
| "scan_once (Suc n) [] = Inl JSONDecodeError"
| "scan_once (Suc n) (c # cs) =
     (if c = CHR 0x22 then
        (case scanstring cs of Inl e \<Rightarrow> Inl e | Inr (t, r) \<Rightarrow> Inr (JString t, r))
      else if c = CHR ''{'' then
        (if prefix ''}'' (skip_ws cs) then Inr (JObject [], tl (skip_ws cs))
         else case parse_object n (skip_ws cs) of
                Inl e \<Rightarrow> Inl e
              | Inr (kvs, r) \<Rightarrow> Inr (JObject kvs, r))
      else if c = CHR ''['' then
        (if prefix '']'' (skip_ws cs) then Inr (JArray [], tl (skip_ws cs))
         else case parse_array n (skip_ws cs) of
                Inl e \<Rightarrow> Inl e
              | Inr (vs, r) \<Rightarrow> Inr (JArray vs, r))
      else if prefix ''null'' (c # cs) then Inr (JNull, drop 4 (c # cs))
      else if prefix ''true'' (c # cs) then Inr (JBool True, drop 4 (c # cs))
      else if prefix ''false'' (c # cs) then Inr (JBool False, drop 5 (c # cs))
      else case match_number (c # cs) of
             Some (v, r) \<Rightarrow> Inr (v, r)
           | None \<Rightarrow>
               if prefix ''NaN'' (c # cs) then Inr (JFloat NaN, drop 3 (c # cs))
               else if prefix ''Infinity'' (c # cs) then Inr (JFloat Infinity, drop 8 (c # cs))
               else if prefix ''-Infinity'' (c # cs) then Inr (JFloat NegInfinity, drop 9 (c # cs))
               else Inl JSONDecodeError)"
| "parse_array 0 s = Inl RecursionError"
| "parse_array (Suc n) s =
     (case scan_once n s of
        Inl e \<Rightarrow> Inl e
      | Inr (v, r) \<Rightarrow>
          if prefix '']'' (skip_ws r) then Inr ([v], tl (skip_ws r))
          else if prefix '','' (skip_ws r) then
            (case parse_array n (skip_ws (tl (skip_ws r))) of
               Inl e \<Rightarrow> Inl e
             | Inr (vs, r') \<Rightarrow> Inr (v # vs, r'))
          else Inl JSONDecodeError)"
| "parse_object 0 s = Inl RecursionError"
| "parse_object (Suc n) s =
     (if prefix [CHR 0x22] s then
        (case scanstring (tl s) of
           Inl e \<Rightarrow> Inl e
         | Inr (k, r) \<Rightarrow>
             if prefix '':'' (skip_ws r) then
               (case scan_once n (skip_ws (tl (skip_ws r))) of
                  Inl e \<Rightarrow> Inl e
                | Inr (v, r') \<Rightarrow>
                    if prefix ''}'' (skip_ws r') then Inr ([(k, v)], tl (skip_ws r'))
                    else if prefix '','' (skip_ws r') then
                      (case parse_object n (skip_ws (tl (skip_ws r'))) of
                         Inl e \<Rightarrow> Inl e
                       | Inr (kvs, r'') \<Rightarrow> Inr ((k, v) # kvs, r''))
                    else Inl JSONDecodeError)
             else Inl JSONDecodeError)
      else Inl JSONDecodeError)"

definition json_decode :: "string \<Rightarrow> error + json" where
  "json_decode s =
     (case scan_once (2 * length s + 2) (skip_ws s) of
        Inl e \<Rightarrow> Inl e
      | Inr (v, r) \<Rightarrow> if skip_ws r = [] then Inr v else Inl JSONDecodeError)"


subsection \<open>Concrete collaborators\<close>

text \<open>
  One agent, \<^verbatim>\<open>echo\<close>, at the address of the module's \<^verbatim>\<open>main\<close>; templates that concatenate their
  arguments; a language model that answers every prompt with the same chunks; an agent that
  answers every message with the same response stream.
\<close>

definition demo_url :: string where
  "demo_url = ''http://localhost:9999/''"

definition echo_card :: agent_card where
  "echo_card = \<lparr>card_name = ''echo'', card_url = demo_url\<rparr>"

definition demo_agent :: agent where
  "demo_agent = Agent_init Stream None (Some [demo_url]) None"

definition text_update :: "string \<Rightarrow> stream_response" where
  "text_update t =
     SendStreamingMessageSuccessResponse (TaskStatusUpdateEvent (Some \<lparr>parts = [TextPart t]\<rparr>))"

definition demo_env :: "string list \<Rightarrow> stream_response list \<Rightarrow> env" where
  "demo_env chunks responses =
     \<lparr>get_agent_card = (\<lambda>url. if url = demo_url then Inr echo_card else Inl (External ''unreachable'')),
      agents_template = (\<lambda>agent_cards. concat (map card_name agent_cards)),
      agent_answer_template = (\<lambda>called_agents. concat (map ans_answer called_agents)),
      decide_template = (\<lambda>question agent_prompt call_agent_prompt.
                           question @ agent_prompt @ call_agent_prompt),
      generative_model = Some (\<lambda>prompt. (chunks, None)),
      json_loads = json_decode,
      send_message_streaming = (\<lambda>agent_card msg. (responses, None))\<rparr>"

text \<open>Decision texts: a JSON text between the fences, and the JSON texts used below.\<close>

definition fenced :: "string \<Rightarrow> string" where
  "fenced body = json_fence_open @ body @ json_fence_close"

definition echo_hi :: string where
  \<open>echo_hi = ''[{"name": "echo", "prompt": "hi"}]''\<close>

definition echo_one_two :: string where
  \<open>echo_one_two = ''[{"name": "echo", "prompt": "one"}, {"name": "echo", "prompt": "two"}]''\<close>

definition echo_ghost_echo :: string where
  \<open>echo_ghost_echo =
     ''[{"name": "echo", "prompt": "hi"}, {"name": "ghost", "prompt": "boo"}, {"name": "echo", "prompt": "again"}]''\<close>

definition nameless :: string where
  \<open>nameless = ''[{"prompt": "hi"}]''\<close>

definition promptless :: string where
  \<open>promptless = ''[{"name": "echo"}]''\<close>

text \<open>The dict \<^verbatim>\<open>{"name": n, "prompt": p}\<close>.\<close>

definition selection :: "string \<Rightarrow> string \<Rightarrow> json" where
  "selection n p = JObject [(''name'', JString n), (''prompt'', JString p)]"

section \<open>Auxiliary facts\<close>

subsection \<open>Searching a text\<close>

lemma split_at_first_Some: "split_at_first pat s = Some (a, b) \<Longrightarrow> s = a @ pat @ b"
proof (induction s arbitrary: a)
  case Nil
  then show ?case by (simp split: if_splits)
next
  case (Cons c cs)
  show ?case
  proof (cases "prefix pat (c # cs)")
    case True
    with Cons.prems have "a = []" "b = drop (length pat) (c # cs)" by simp_all
    moreover from True obtain r where "c # cs = pat @ r" by (auto simp: prefix_def)
    ultimately show ?thesis by simp
  next
    case False
    with Cons.prems obtain a' where "split_at_first pat cs = Some (a', b)" "a = c # a'"
      by (auto split: option.splits)
    with Cons.IH show ?thesis by simp
  qed
qed

lemma occurs_Cons: "occurs pat s \<Longrightarrow> occurs pat (c # s)"
  unfolding occurs_def by (metis append_Cons)

lemma occurs_prefix: "prefix pat s \<Longrightarrow> occurs pat s"
  unfolding occurs_def prefix_def by (metis append_Nil)

lemma occurs_Cons_cases: "occurs pat (c # s) \<Longrightarrow> prefix pat (c # s) \<or> occurs pat s"
  unfolding occurs_def prefix_def
  by (metis append_Nil append_eq_Cons_conv)

lemma split_at_first_None_iff: "split_at_first pat s = None \<longleftrightarrow> \<not> occurs pat s"
proof (induction s)
  case Nil
  show ?case by (auto simp: occurs_def)
next
  case (Cons c cs)
  show ?case
  proof (cases "prefix pat (c # cs)")
    case True
    then show ?thesis by (simp add: occurs_prefix)
  next
    case False
    then show ?thesis using Cons.IH occurs_Cons_cases [of pat c cs] occurs_Cons [of pat cs c]
      by (auto split: option.splits)
  qed
qed

lemma prefix_early:
  assumes "prefix pat (u @ v)" "length pat \<le> length u"
  shows "prefix pat u"
  using assms
  by (metis prefix_append prefix_order.dual_order.antisym append_Nil2 prefix_def
      append_eq_append_conv_if)

lemma split_at_first_first:
  assumes "pat \<noteq> []" "\<not> occurs pat (a @ butlast pat)"
  shows "split_at_first pat (a @ pat @ b) = Some (a, b)"
  using assms(2)
proof (induction a)
  case Nil
  from assms(1) obtain c cs where "pat @ b = c # cs" by (cases pat) auto
  then show ?case using assms(1)
    by (metis append_Nil split_at_first.simps(2) prefixI append_eq_conv_conj)
next
  case (Cons x a)
  have "\<not> prefix pat (x # a @ pat @ b)"
  proof
    assume p: "prefix pat (x # a @ pat @ b)"
    have "x # a @ pat @ b = ((x # a) @ butlast pat) @ (last pat # b)"
      using assms(1) by simp
    with p have "prefix pat (((x # a) @ butlast pat) @ (last pat # b))" by simp
    moreover have "length pat \<le> length ((x # a) @ butlast pat)" using assms(1) by simp
    ultimately have "prefix pat ((x # a) @ butlast pat)" by (rule prefix_early)
    with Cons.prems show False using occurs_prefix by blast
  qed
  moreover have "\<not> occurs pat (a @ butlast pat)"
    using Cons.prems occurs_Cons [of pat "a @ butlast pat" x] by auto
  ultimately show ?case using Cons.IH by simp
qed

lemma re_search_group_found:
  assumes "opening \<noteq> []" "closing \<noteq> []"
    and "\<not> occurs opening (pre @ butlast opening)"
    and "\<not> occurs closing (inner @ butlast closing)"
  shows "re_search_group opening closing (pre @ opening @ inner @ closing @ post) = Some inner"
  using split_at_first_first [OF assms(1,3), of "inner @ closing @ post"]
    split_at_first_first [OF assms(2,4), of post]
  by (simp add: re_search_group_def)

lemma re_search_group_none:
  assumes "\<not> (\<exists>a b c. s = a @ opening @ b @ closing @ c)"
  shows "re_search_group opening closing s = None"
proof (cases "split_at_first opening s")
  case None
  then show ?thesis by (simp add: re_search_group_def)
next
  case (Some ar)
  obtain a rest where ar: "ar = (a, rest)" by (cases ar)
  have s: "s = a @ opening @ rest" using split_at_first_Some Some ar by blast
  show ?thesis
  proof (cases "split_at_first closing rest")
    case None
    then show ?thesis using Some ar by (simp add: re_search_group_def)
  next
    case (Some bc)
    obtain b c where "bc = (b, c)" by (cases bc)
    then have "rest = b @ closing @ c" using split_at_first_Some Some by blast
    with s assms show ?thesis by blast
  qed
qed

lemma split_at_first_minimal:
  assumes "pat \<noteq> []" "split_at_first pat s = Some (a, b)"
  shows "\<not> occurs pat (a @ butlast pat)"
  using assms(2)
proof (induction s arbitrary: a)
  case Nil
  then show ?case using assms(1) by simp
next
  case (Cons c cs)
  show ?case
  proof (cases "prefix pat (c # cs)")
    case True
    with Cons.prems have "a = []" by simp
    moreover have "\<not> occurs pat (butlast pat)"
    proof
      assume "occurs pat (butlast pat)"
      then obtain u v where "butlast pat = u @ pat @ v" by (auto simp: occurs_def)
      then have "length (butlast pat) = length u + length pat + length v" by (metis length_append add.assoc)
      moreover obtain k where "length pat = Suc k" using assms(1) by (cases pat) auto
      ultimately show False by simp
    qed
    ultimately show ?thesis by simp
  next
    case False
    with Cons.prems obtain a' where a': "split_at_first pat cs = Some (a', b)" "a = c # a'"
      by (auto split: option.splits)
    have cs: "cs = a' @ pat @ b" using split_at_first_Some a'(1) by blast
    have no: "\<not> occurs pat (a' @ butlast pat)" using Cons.IH a'(1) by blast
    show ?thesis
    proof
      assume "occurs pat (a @ butlast pat)"
      then have "occurs pat (c # (a' @ butlast pat))" using a'(2) by simp
      then have "prefix pat (c # (a' @ butlast pat))"
        using occurs_Cons_cases [of pat c "a' @ butlast pat"] no by simp
      then have "prefix pat ((c # (a' @ butlast pat)) @ (last pat # b))"
        by (rule prefix_prefix)
      moreover have "(c # (a' @ butlast pat)) @ (last pat # b) = c # cs" using cs assms(1) by simp
      ultimately show False using False by simp
    qed
  qed
qed

lemma occurs_drop:
  assumes "s = u @ pat @ v" "n \<le> length u"
  shows "occurs pat (drop n s)"
  unfolding occurs_def using assms by (metis append.assoc drop_append diff_is_0_eq drop_0)

lemma re_search_group_some:
  assumes "opn \<noteq> []" "s = a @ opn @ b @ cls @ c"
  shows "re_search_group opn cls s \<noteq> None"
proof -
  have "occurs opn s" using assms(2) by (auto simp: occurs_def)
  then obtain a' rest where sp: "split_at_first opn s = Some (a', rest)"
    using split_at_first_None_iff [of opn s] by (cases "split_at_first opn s") auto
  have s: "s = a' @ opn @ rest" using split_at_first_Some sp by blast
  have min: "\<not> occurs opn (a' @ butlast opn)" using split_at_first_minimal [OF assms(1) sp] .
  have le: "length a' \<le> length a"
  proof (rule ccontr)
    assume "\<not> length a' \<le> length a"
    then have lt: "length a < length a'" by simp
    obtain k where pos: "length opn = Suc k" using assms(1) by (cases opn) auto
    have "s = (a @ opn) @ (b @ cls @ c)" using assms(2) by simp
    then have p1: "prefix (a @ opn) s" by (rule prefixI)
    have "s = (a' @ butlast opn) @ (last opn # rest)" using s assms(1) by simp
    then have p2: "prefix (a' @ butlast opn) s" by (rule prefixI)
    have len: "length (a @ opn) \<le> length (a' @ butlast opn)" using lt pos by simp
    from prefix_length_prefix [OF p1 p2 len] obtain z where "a' @ butlast opn = (a @ opn) @ z"
      by (auto simp: prefix_def)
    then have "occurs opn (a' @ butlast opn)" unfolding occurs_def by (metis append.assoc)
    with min show False by simp
  qed
  have r: "rest = drop (length a' + length opn) s" using s by simp
  have s2: "s = (a @ opn @ b) @ cls @ c" using assms(2) by simp
  have "length a' + length opn \<le> length (a @ opn @ b)" using le by simp
  with s2 have "occurs cls (drop (length a' + length opn) s)" by (rule occurs_drop)
  with r have "occurs cls rest" by simp
  then obtain i r where "split_at_first cls rest = Some (i, r)"
    using split_at_first_None_iff [of cls rest] by (cases "split_at_first cls rest") auto
  with sp show ?thesis by (simp add: re_search_group_def)
qed

lemma re_search_group_SomeD:
  assumes "opn \<noteq> []" "cls \<noteq> []"
    and "re_search_group opn cls s = Some inner"
  shows "\<exists>pre post. s = pre @ opn @ inner @ cls @ post \<and>
           \<not> occurs opn (pre @ butlast opn) \<and> \<not> occurs cls (inner @ butlast cls)"
proof -
  from assms(3) obtain pre rest where a: "split_at_first opn s = Some (pre, rest)"
    by (auto simp: re_search_group_def split: option.splits)
  with assms(3) obtain post where b: "split_at_first cls rest = Some (inner, post)"
    by (auto simp: re_search_group_def split: option.splits)
  have "s = pre @ opn @ rest" using split_at_first_Some [OF a] .
  moreover have "rest = inner @ cls @ post" using split_at_first_Some [OF b] .
  moreover have "\<not> occurs opn (pre @ butlast opn)" using split_at_first_minimal [OF assms(1) a] .
  moreover have "\<not> occurs cls (inner @ butlast cls)" using split_at_first_minimal [OF assms(2) b] .
  ultimately show ?thesis by blast
qed

lemma fence_nonempty: "json_fence_open \<noteq> []" "json_fence_close \<noteq> []"
  "answer_open \<noteq> []" "answer_close \<noteq> []"
  by (simp_all add: json_fence_open_def json_fence_close_def answer_open_def answer_close_def)

lemma occurs_code: "occurs pat s \<longleftrightarrow> split_at_first pat s \<noteq> None"
  by (simp add: split_at_first_None_iff)

subsection \<open>The events of each step\<close>

lemma decides_append: "decides (xs @ ys) = decides xs @ decides ys"
  by (induction xs rule: decides.induct) simp_all

lemma dispatches_append: "dispatches (xs @ ys) = dispatches xs @ dispatches ys"
  by (induction xs rule: dispatches.induct) simp_all

lemma yields_append: "yields (xs @ ys) = yields xs @ yields ys"
  by (induction xs rule: yields.induct) simp_all

lemma decides_map_Resolve: "decides (map Resolve us) = []"
  by (induction us) simp_all

lemma dispatches_map_Resolve: "dispatches (map Resolve us) = []"
  by (induction us) simp_all

lemma yields_map_Resolve: "yields (map Resolve us) = []"
  by (induction us) simp_all

lemma get_agents_events:
  "decides (fst (get_agents E self)) = []"
  "dispatches (fst (get_agents E self)) = []"
  "yields (fst (get_agents E self)) = []"
  by (simp_all add: get_agents_def decides_map_Resolve dispatches_map_Resolve
      yields_map_Resolve split: option.splits)

lemma relay_events:
  "decides (fst (relay cb cs)) = []"
  "dispatches (fst (relay cb cs)) = []"
  by (induction cs) (auto split: option.splits prod.splits)

lemma relay_finished:
  "relay cb cs = (es, t, None) \<Longrightarrow> yields es = cs \<and> t = concat cs"
  by (induction cs arbitrary: es t) (auto split: option.splits prod.splits)

lemma consume_events:
  "decides (fst (consume cb g)) = []"
  "dispatches (fst (consume cb g)) = []"
  using relay_events [of cb "fst g"]
  by (auto simp: consume_def split: option.splits prod.splits)

lemma consume_finished:
  "consume cb g = (es, t, None) \<Longrightarrow> yields es = fst g \<and> t = concat (fst g) \<and> snd g = None"
  using relay_finished [of cb "fst g"]
  by (auto simp: consume_def split: option.splits prod.splits)

lemma consume_eventsD:
  "consume cb g = (es, t, x) \<Longrightarrow> decides es = [] \<and> dispatches es = []"
  using consume_events [of cb g] by simp

lemma send_message_to_an_agent_eq:
  "send_message_to_an_agent E c p =
     ([Dispatch c p],
      (concat (map chunk_fragments (fst (send_message_streaming E c p))),
       snd (send_message_streaming E c p)))"
  by (simp add: send_message_to_an_agent_def split: prod.splits)

lemma dispatch_one_decides: "decides (fst (dispatch_one E self registry agent)) = []"
proof (cases "subscript agent ''name''")
  case (Inl e)
  then show ?thesis by (simp add: dispatch_one_def)
next
  case (Inr nm)
  show ?thesis
  proof (cases nm)
    case (JString n)
    show ?thesis
    proof (cases "registry n")
      case None
      then show ?thesis using Inr JString by (simp add: dispatch_one_def)
    next
      case (Some c)
      show ?thesis
      proof (cases "subscript agent ''prompt''")
        case (Inl e)
        then show ?thesis using Inr JString Some by (simp add: dispatch_one_def)
      next
        case (Inr pv)
        note p = Inr
        show ?thesis
        proof (cases pv)
          case (JString p')
          obtain es t x where c: "consume (token_stream_callback self)
              (concat (map chunk_fragments (fst (send_message_streaming E c p'))), snd (send_message_streaming E c p')) = (es, t, x)"
            using prod_cases3 by blast
          from consume_eventsD [OF c] show ?thesis
            using \<open>subscript agent ''name'' = Inr nm\<close> \<open>nm = JString n\<close> Some p JString c
            by (cases x) (simp_all add: dispatch_one_def send_message_to_an_agent_eq decides_append)
        qed (use \<open>subscript agent ''name'' = Inr nm\<close> \<open>nm = JString n\<close> Some p in \<open>simp_all add: dispatch_one_def\<close>)
      qed
    qed
  qed (use Inr in \<open>simp_all add: dispatch_one_def\<close>)
qed

lemma dispatch_all_decides: "decides (fst (dispatch_all E self registry agents)) = []"
proof (induction agents)
  case Nil
  show ?case by simp
next
  case (Cons a agents)
  obtain es r where d: "dispatch_one E self registry a = (es, r)" by (cases "dispatch_one E self registry a")
  have e: "decides es = []" using dispatch_one_decides [of E self registry a] d by simp
  obtain es' as x where l: "dispatch_all E self registry agents = (es', as, x)"
    using prod_cases3 by blast
  have e': "decides es' = []" using Cons.IH l by simp
  show ?case using d e l e' by (cases r) (simp_all add: decides_append)
qed

lemma stream_round_decides: "length (decides (fst (stream_round E self question answers))) \<le> 1"
proof -
  obtain es1 r1 where g: "get_agents E self = (es1, r1)" by (cases "get_agents E self")
  have e1: "decides es1 = []" using get_agents_events(1) [of E self] g by simp
  show ?thesis
  proof (cases r1)
    case (Inl e)
    then show ?thesis using g e1 by (simp add: stream_round_def)
  next
    case (Inr ra)
    obtain registry agent_prompt where ra: "ra = (registry, agent_prompt)" by (cases ra)
    obtain p g' where d: "decide E question agent_prompt answers = ([Decide p], g')"
      by (simp add: decide_def Let_def)
    obtain es3 response x where c: "consume (token_stream_callback self) g' = (es3, response, x)"
      using prod_cases3 by blast
    have e3: "decides es3 = []" using consume_eventsD [OF c] by simp
    show ?thesis
    proof (cases x)
      case (Some e)
      then show ?thesis using g e1 Inr ra d c e3 by (simp add: stream_round_def decides_append)
    next
      case None
      show ?thesis
      proof (cases "extract_agents E response")
        case (Inl e)
        then show ?thesis using g e1 Inr ra d c e3 None by (simp add: stream_round_def decides_append)
      next
        case (Inr agents)
        note ag = Inr
        show ?thesis
        proof (cases "truthy agents")
          case False
          then show ?thesis using g e1 \<open>r1 = Inr ra\<close> ra d c e3 None ag
            by (simp add: stream_round_def decides_append)
        next
          case True
          show ?thesis
          proof (cases "py_iter agents")
            case (Inl e)
            then show ?thesis using g e1 \<open>r1 = Inr ra\<close> ra d c e3 None ag True
              by (simp add: stream_round_def decides_append)
          next
            case (Inr selections)
            obtain es4 new y where da: "dispatch_all E self registry selections = (es4, new, y)"
              using prod_cases3 by blast
            have e4: "decides es4 = []" using dispatch_all_decides [of E self registry selections] da by simp
            show ?thesis using g e1 \<open>r1 = Inr ra\<close> ra d c e3 None ag True Inr da e4
              by (cases y) (simp_all add: stream_round_def decides_append)
          qed
        qed
      qed
    qed
  qed
qed

lemma stream_loop_decides: "length (decides (fst (stream_loop n E self question answers))) \<le> n"
proof (induction n arbitrary: answers)
  case 0
  show ?case by simp
next
  case (Suc n)
  obtain es answers' oc where r: "stream_round E self question answers = (es, answers', oc)"
    by (cases "stream_round E self question answers")
  have le1: "length (decides es) \<le> 1" using stream_round_decides [of E self question answers] r by simp
  show ?case
  proof (cases oc)
    case Continue
    obtain es' a' ending where l: "stream_loop n E self question answers' = (es', a', ending)"
      by (cases "stream_loop n E self question answers'")
    have "length (decides es') \<le> n" using Suc.IH [of answers'] l by simp
    with le1 show ?thesis using r Continue l by (simp add: decides_append)
  next
    case Return
    with le1 show ?thesis using r by simp
  next
    case (Raise e)
    with le1 show ?thesis using r by simp
  qed
qed

subsection \<open>Unfolding one round and one dispatch\<close>

lemma stream_round_decided:
  assumes "get_agents E self = (es1, Inr (registry, agent_prompt))"
    and "decide E question agent_prompt agent_answers = (es2, g)"
    and "consume (token_stream_callback self) g = (es3, response, None)"
  shows "stream_round E self question agent_answers =
     (case extract_agents E response of
        Inl e \<Rightarrow> (es1 @ es2 @ es3, agent_answers, Raise e)
      | Inr agents \<Rightarrow>
          if truthy agents then
            (case py_iter agents of
               Inl e \<Rightarrow> (es1 @ es2 @ es3, agent_answers, Raise e)
             | Inr selections \<Rightarrow>
                 (case dispatch_all E self registry selections of
                    (es4, new, Some e) \<Rightarrow> (es1 @ es2 @ es3 @ es4, agent_answers @ new, Raise e)
                  | (es4, new, None) \<Rightarrow> (es1 @ es2 @ es3 @ es4, agent_answers @ new, Continue)))
          else (es1 @ es2 @ es3, agent_answers, Return))"
  using assms by (simp add: stream_round_def)

lemma extract_answer_region:
  assumes "\<not> occurs answer_open (pre @ butlast answer_open)"
    and "\<not> occurs answer_close (inner @ butlast answer_close)"
  shows "extract_answer (pre @ answer_open @ inner @ answer_close @ post) = strip inner"
  using re_search_group_found [OF fence_nonempty(3,4) assms, of post]
  by (simp add: extract_answer_def)

lemma extract_answer_no_region:
  assumes "\<not> (\<exists>a b c. response = a @ answer_open @ b @ answer_close @ c)"
  shows "extract_answer response = response"
  using re_search_group_none [OF assms] by (simp add: extract_answer_def)

lemma dispatch_one_answer:
  assumes "dispatch_one E self registry agent = (es, Inr a)"
  shows "\<exists>agent_card. registry (ans_name a) = Some agent_card \<and>
           ans_answer a = extract_answer (concat (fst (snd (send_message_to_an_agent E agent_card (ans_prompt a)))))
         \<and> subscript agent ''name'' = Inr (JString (ans_name a))
         \<and> subscript agent ''prompt'' = Inr (JString (ans_prompt a))"
proof (cases "subscript agent ''name''")
  case (Inl e)
  then show ?thesis using assms by (simp add: dispatch_one_def)
next
  case (Inr nm)
  show ?thesis
  proof (cases nm)
    case (JString n)
    show ?thesis
    proof (cases "registry n")
      case None
      then show ?thesis using Inr JString assms by (simp add: dispatch_one_def)
    next
      case (Some c)
      show ?thesis
      proof (cases "subscript agent ''prompt''")
        case (Inl e)
        then show ?thesis using Inr JString Some assms by (simp add: dispatch_one_def)
      next
        case (Inr pv)
        note p = Inr
        show ?thesis
        proof (cases pv)
          case (JString p')
          obtain es' t x where c: "consume (token_stream_callback self)
              (concat (map chunk_fragments (fst (send_message_streaming E c p'))), snd (send_message_streaming E c p')) = (es', t, x)"
            using prod_cases3 by blast
          show ?thesis
          proof (cases x)
            case None
            have t: "t = concat (concat (map chunk_fragments (fst (send_message_streaming E c p'))))"
              using consume_finished c None by fastforce
            have "a = \<lparr>ans_name = n, ans_prompt = p', ans_answer = extract_answer t\<rparr>"
              using assms \<open>subscript agent ''name'' = Inr nm\<close> \<open>nm = JString n\<close> Some p JString c None
              by (simp add: dispatch_one_def send_message_to_an_agent_eq)
            then show ?thesis
              using t Some \<open>subscript agent ''name'' = Inr nm\<close> \<open>nm = JString n\<close> p JString
              by (simp add: send_message_to_an_agent_eq)
          next
            case (Some e)
            then show ?thesis
              using assms \<open>subscript agent ''name'' = Inr nm\<close> \<open>nm = JString n\<close> \<open>registry n = Some c\<close> p JString c
              by (simp add: dispatch_one_def send_message_to_an_agent_eq)
          qed
        qed (use \<open>subscript agent ''name'' = Inr nm\<close> \<open>nm = JString n\<close> Some p assms in \<open>simp_all add: dispatch_one_def\<close>)
      qed
    qed
  qed (use Inr assms in \<open>simp_all add: dispatch_one_def\<close>)
qed

lemma dispatch_all_append:
  "dispatch_all E self registry earlier = (es, new, None) \<Longrightarrow>
   dispatch_all E self registry (earlier @ later) =
     (case dispatch_all E self registry later of
        (es', new', x) \<Rightarrow> (es @ es', new @ new', x))"
proof (induction earlier arbitrary: es new)
  case Nil
  then show ?case by (simp split: prod.splits)
next
  case (Cons s earlier)
  obtain es0 r where d: "dispatch_one E self registry s = (es0, r)"
    by (cases "dispatch_one E self registry s")
  obtain es1 new1 x1 where l: "dispatch_all E self registry earlier = (es1, new1, x1)"
    using prod_cases3 by blast
  show ?case
  proof (cases r)
    case (Inl e)
    with Cons.prems d show ?thesis by simp
  next
    case (Inr a)
    with Cons.prems d l have "x1 = None" "es = es0 @ es1" "new = a # new1" by simp_all
    with Cons.IH [of es1 new1] l d Inr show ?thesis by (simp split: prod.splits)
  qed
qed

lemma dispatch_one_unknown:
  "subscript agent ''name'' = Inr (JString n) \<Longrightarrow> registry n = None \<Longrightarrow>
   dispatch_one E self registry agent = ([], Inl KeyError)"
  by (simp add: dispatch_one_def)

lemma dispatch_one_no_name:
  "subscript agent ''name'' = Inl e \<Longrightarrow> dispatch_one E self registry agent = ([], Inl e)"
  by (simp add: dispatch_one_def)

lemma dispatch_one_no_prompt:
  "subscript agent ''name'' = Inr (JString n) \<Longrightarrow> registry n = Some c \<Longrightarrow>
   subscript agent ''prompt'' = Inl e \<Longrightarrow>
   dispatch_one E self registry agent = ([Yield (agent_begin_marker n)], Inl e)"
  by (simp add: dispatch_one_def)

lemma dispatch_all_stops:
  assumes "dispatch_all E self registry earlier = (es4, new, None)"
    and "dispatch_one E self registry agent = (es5, Inl e)"
  shows "dispatch_all E self registry (earlier @ agent # later) = (es4 @ es5, new, Some e)"
  using dispatch_all_append [OF assms(1), of "agent # later"] assms(2) by simp

lemma stream_round_stops:
  assumes "get_agents E self = (es1, Inr (registry, agent_prompt))"
    and "decide E question agent_prompt agent_answers = (es2, g)"
    and "consume (token_stream_callback self) g = (es3, response, None)"
    and "extract_agents E response = Inr (JArray (earlier @ agent # later))"
    and "dispatch_all E self registry earlier = (es4, new, None)"
    and "dispatch_one E self registry agent = (es5, Inl e)"
  shows "stream_round E self question agent_answers
           = (es1 @ es2 @ es3 @ es4 @ es5, agent_answers @ new, Raise e)"
  using stream_round_decided [OF assms(1-3)] assms(4) dispatch_all_stops [OF assms(5,6), of later]
  by simp

lemma subscript_missing: "k \<notin> fst ` set kvs \<Longrightarrow> subscript (JObject kvs) k = Inl KeyError"
proof -
  assume "k \<notin> fst ` set kvs"
  then have "map_of (rev kvs) k = None" by (simp add: map_of_eq_None_iff)
  then show ?thesis by simp
qed

lemma relay_no_callback: "relay None cs = (map Yield cs, concat cs, None)"
  by (induction cs) simp_all

lemma consume_no_callback: "consume None (cs, x) = (map Yield cs, concat cs, x)"
  by (simp add: consume_def relay_no_callback)

lemma dispatch_one_dispatches:
  "length (dispatches (fst (dispatch_one E self registry agent))) \<le> 1"
proof (cases "subscript agent ''name''")
  case (Inl e)
  then show ?thesis by (simp add: dispatch_one_def)
next
  case (Inr nm)
  show ?thesis
  proof (cases nm)
    case (JString n)
    show ?thesis
    proof (cases "registry n")
      case None
      then show ?thesis using Inr JString by (simp add: dispatch_one_def)
    next
      case (Some c)
      show ?thesis
      proof (cases "subscript agent ''prompt''")
        case (Inl e)
        then show ?thesis using Inr JString Some by (simp add: dispatch_one_def)
      next
        case (Inr pv)
        note p = Inr
        show ?thesis
        proof (cases pv)
          case (JString p')
          obtain es t x where c: "consume (token_stream_callback self)
              (concat (map chunk_fragments (fst (send_message_streaming E c p'))),
               snd (send_message_streaming E c p')) = (es, t, x)"
            using prod_cases3 by blast
          from consume_eventsD [OF c] show ?thesis
            using \<open>subscript agent ''name'' = Inr nm\<close> \<open>nm = JString n\<close> Some p JString c
            by (cases x)
              (simp_all add: dispatch_one_def send_message_to_an_agent_eq dispatches_append)
        qed (use \<open>subscript agent ''name'' = Inr nm\<close> \<open>nm = JString n\<close> Some p
              in \<open>simp_all add: dispatch_one_def\<close>)
      qed
    qed
  qed (use Inr in \<open>simp_all add: dispatch_one_def\<close>)
qed

lemma dispatch_all_shape:
  assumes "dispatch_all E self registry selections = (es, new, x)"
  shows "\<exists>k. k \<le> length selections \<and> length new \<le> k \<and>
           es = concat (map (\<lambda>s. fst (dispatch_one E self registry s)) (take k selections)) \<and>
           map Inr new
             = map (\<lambda>s. snd (dispatch_one E self registry s)) (take (length new) selections) \<and>
           (x = None \<longrightarrow> length new = length selections)"
  using assms
proof (induction selections arbitrary: es new x)
  case Nil
  then show ?case by simp
next
  case (Cons s ss)
  obtain es0 r where d: "dispatch_one E self registry s = (es0, r)"
    by (cases "dispatch_one E self registry s")
  show ?case
  proof (cases r)
    case (Inl e)
    with Cons.prems d have "es = es0" "new = []" "x = Some e" by simp_all
    then have "Suc 0 \<le> length (s # ss) \<and> length new \<le> Suc 0 \<and>
        es = concat (map (\<lambda>s. fst (dispatch_one E self registry s)) (take (Suc 0) (s # ss))) \<and>
        map Inr new
          = map (\<lambda>s. snd (dispatch_one E self registry s)) (take (length new) (s # ss)) \<and>
        (x = None \<longrightarrow> length new = length (s # ss))"
      using d by simp
    then show ?thesis by blast
  next
    case (Inr a)
    obtain es1 new1 x1 where l: "dispatch_all E self registry ss = (es1, new1, x1)"
      using prod_cases3 by blast
    from Cons.IH [OF l] obtain k where k: "k \<le> length ss" "length new1 \<le> k"
      "es1 = concat (map (\<lambda>s. fst (dispatch_one E self registry s)) (take k ss))"
      "map Inr new1 = map (\<lambda>s. snd (dispatch_one E self registry s)) (take (length new1) ss)"
      "x1 = None \<longrightarrow> length new1 = length ss"
      by blast
    from Cons.prems d Inr l have e: "es = es0 @ es1" "new = a # new1" "x = x1" by simp_all
    have "Suc k \<le> length (s # ss) \<and> length new \<le> Suc k \<and>
        es = concat (map (\<lambda>s. fst (dispatch_one E self registry s)) (take (Suc k) (s # ss))) \<and>
        map Inr new
          = map (\<lambda>s. snd (dispatch_one E self registry s)) (take (length new) (s # ss)) \<and>
        (x = None \<longrightarrow> length new = length (s # ss))"
      using k e d Inr by simp
    then show ?thesis by blast
  qed
qed

lemma dispatch_one_ok:
  assumes "dispatch_one E self registry agent = (es, Inr a)"
  shows "\<exists>c es'. registry (ans_name a) = Some c \<and>
           es = Yield (agent_begin_marker (ans_name a)) # Dispatch c (ans_prompt a) # es'
                  @ [Yield agent_end_marker] \<and>
           dispatches es' = [] \<and>
           yields es' = fst (snd (send_message_to_an_agent E c (ans_prompt a)))"
proof (cases "subscript agent ''name''")
  case (Inl e)
  then show ?thesis using assms by (simp add: dispatch_one_def)
next
  case (Inr nm)
  show ?thesis
  proof (cases nm)
    case (JString n)
    show ?thesis
    proof (cases "registry n")
      case None
      then show ?thesis using Inr JString assms by (simp add: dispatch_one_def)
    next
      case (Some c)
      show ?thesis
      proof (cases "subscript agent ''prompt''")
        case (Inl e)
        then show ?thesis using Inr JString Some assms by (simp add: dispatch_one_def)
      next
        case (Inr pv)
        note p = Inr
        show ?thesis
        proof (cases pv)
          case (JString p')
          obtain es' t x where c: "consume (token_stream_callback self)
              (concat (map chunk_fragments (fst (send_message_streaming E c p'))),
               snd (send_message_streaming E c p')) = (es', t, x)"
            using prod_cases3 by blast
          show ?thesis
          proof (cases x)
            case None
            have y: "yields es' = concat (map chunk_fragments (fst (send_message_streaming E c p')))"
              using consume_finished c None by fastforce
            have d: "dispatches es' = []" using consume_eventsD [OF c] by simp
            have "a = \<lparr>ans_name = n, ans_prompt = p', ans_answer = extract_answer t\<rparr>"
              "es = Yield (agent_begin_marker n) # Dispatch c p' # es' @ [Yield agent_end_marker]"
              using assms \<open>subscript agent ''name'' = Inr nm\<close> \<open>nm = JString n\<close> Some p JString c None
              by (simp_all add: dispatch_one_def send_message_to_an_agent_eq)
            then show ?thesis
              using y d Some by (simp add: send_message_to_an_agent_eq)
          next
            case (Some e)
            then show ?thesis
              using assms \<open>subscript agent ''name'' = Inr nm\<close> \<open>nm = JString n\<close>
                \<open>registry n = Some c\<close> p JString c
              by (simp add: dispatch_one_def send_message_to_an_agent_eq)
          qed
        qed (use \<open>subscript agent ''name'' = Inr nm\<close> \<open>nm = JString n\<close> Some p assms
              in \<open>simp_all add: dispatch_one_def\<close>)
      qed
    qed
  qed (use Inr assms in \<open>simp_all add: dispatch_one_def\<close>)
qed

lemma dispatch_all_dispatches:
  assumes "dispatch_all E self registry selections = (es, new, x)"
  shows "map (\<lambda>a. (registry (ans_name a), ans_prompt a)) new
           = map (\<lambda>(c, m). (Some c, m)) (take (length new) (dispatches es))"
  using assms
proof (induction selections arbitrary: es new x)
  case Nil
  then show ?case by simp
next
  case (Cons s ss)
  obtain es0 r where d: "dispatch_one E self registry s = (es0, r)"
    by (cases "dispatch_one E self registry s")
  show ?case
  proof (cases r)
    case (Inl e)
    with Cons.prems d show ?thesis by simp
  next
    case (Inr a)
    obtain es1 new1 x1 where l: "dispatch_all E self registry ss = (es1, new1, x1)"
      using prod_cases3 by blast
    from Cons.prems d Inr l have e: "es = es0 @ es1" "new = a # new1" by simp_all
    from d Inr have "dispatch_one E self registry s = (es0, Inr a)" by simp
    from dispatch_one_ok [OF this] obtain c where c: "registry (ans_name a) = Some c"
      "dispatches es0 = [(c, ans_prompt a)]"
      by (auto simp: dispatches_append)
    show ?thesis using Cons.IH [OF l] e c by (simp add: dispatches_append)
  qed
qed

lemma decide_events:
  "decide E question agent_prompt agent_answers = (es2, g) \<Longrightarrow>
   dispatches es2 = [] \<and> yields es2 = []"
  by (auto simp: decide_def Let_def)

subsection \<open>The concrete collaborators at work\<close>

lemma demo_get_agents:
  "get_agents (demo_env chunks responses) demo_agent
     = ([Resolve demo_url], Inr (registry_of [echo_card], ''echo''))"
  by (simp add: get_agents_def demo_agent_def Agent_init_def demo_env_def echo_card_def)

lemma demo_decide:
  "decide (demo_env chunks responses) ''ping'' ''echo'' [] = ([Decide ''pingecho''], (chunks, None))"
  by (simp add: decide_def call_llm_def stream_llm_def demo_env_def)

lemma demo_consume:
  "consume (token_stream_callback demo_agent) (chunks, None) = (map Yield chunks, concat chunks, None)"
  by (simp add: consume_no_callback demo_agent_def Agent_init_def)

lemma demo_registry:
  "registry_of [echo_card] ''echo'' = Some echo_card" "registry_of [echo_card] ''ghost'' = None"
  by (simp_all add: registry_of_def echo_card_def)

section \<open>The directory loader\<close>

text \<open>
  Claim C5. Called with an empty list of endpoint addresses, \<^verbatim>\<open>get_agents\<close> returns the empty
  mapping and the empty prompt text; it requests no agent card (the run has no event at all)
  and raises nothing.
\<close>

theorem get_agents_empty_list:
  "get_agents E (self\<lparr>agent_urls := Some []\<rparr>) = ([], Inr (Map.empty, ''''))"
  by (simp add: get_agents_def)

text \<open>
  Claim C9. An absent list of addresses (\<^verbatim>\<open>agent_urls = None\<close>, the default of the constructor)
  is treated as the empty list: \<^verbatim>\<open>get_agents\<close> returns the empty mapping and the empty prompt
  text with no request and no error, for every agent built without \<^verbatim>\<open>agent_urls\<close>.
\<close>

theorem get_agents_absent_list:
  "get_agents E (self\<lparr>agent_urls := None\<rparr>) = get_agents E (self\<lparr>agent_urls := Some []\<rparr>) \<and>
   get_agents E (self\<lparr>agent_urls := None\<rparr>) = ([], Inr (Map.empty, [])) \<and>
   get_agents E (Agent_init m cb None agent_prompt) = ([], Inr (Map.empty, [])) \<and>
   get_agents E Agent_default = ([], Inr (Map.empty, []))"
  by (simp add: get_agents_def Agent_init_def Agent_default_def)

section \<open>The agent dispatcher\<close>

text \<open>
  Claim C10. For one event of an agent's response stream the dispatcher yields at most one
  fragment. It yields the text of the first part when the event is a success response
  carrying a status update whose message has a first part that is a text part, whatever
  parts follow. It yields nothing for an error response, for a result that is no status
  update, for a status update without message, for a message without parts, and for a first
  part that is no text part. The fragments of the stream are those of its events, in order.
\<close>

theorem chunk_fragments_first_text_part:
  "length (chunk_fragments chunk) \<le> 1 \<and>
   chunk_fragments (SendStreamingMessageSuccessResponse
       (TaskStatusUpdateEvent (Some (m\<lparr>parts := TextPart t # ps\<rparr>)))) = [t] \<and>
   chunk_fragments (SendStreamingMessageSuccessResponse
       (TaskStatusUpdateEvent (Some (m\<lparr>parts := FilePart f # ps\<rparr>)))) = [] \<and>
   chunk_fragments (SendStreamingMessageSuccessResponse
       (TaskStatusUpdateEvent (Some (m\<lparr>parts := DataPart d # ps\<rparr>)))) = [] \<and>
   chunk_fragments (SendStreamingMessageSuccessResponse
       (TaskStatusUpdateEvent (Some (m\<lparr>parts := []\<rparr>)))) = [] \<and>
   chunk_fragments (SendStreamingMessageSuccessResponse (TaskStatusUpdateEvent None)) = [] \<and>
   chunk_fragments (SendStreamingMessageSuccessResponse Task) = [] \<and>
   chunk_fragments (SendStreamingMessageSuccessResponse (MessageResult m')) = [] \<and>
   chunk_fragments (SendStreamingMessageSuccessResponse TaskArtifactUpdateEvent) = [] \<and>
   chunk_fragments JSONRPCErrorResponse = [] \<and>
   fst (snd (send_message_to_an_agent E agent_card msg))
     = concat (map chunk_fragments (fst (send_message_streaming E agent_card msg)))"
proof -
  have "length (chunk_fragments chunk) \<le> 1"
    by (simp add: chunk_fragments_def
        split: stream_response.splits stream_result.splits option.splits part.splits)
  then show ?thesis
    by (simp add: chunk_fragments_def send_message_to_an_agent_eq)
qed

text \<open>
  Claim C3, as amended. When a dispatch succeeds, the recorded answer is computed from the
  whole concatenated response of the agent: if the response has a region
  \<^verbatim>\<open><Answer>...</Answer>\<close>, the answer is the inner text of the first such region (the first
  opening tag, up to the first closing tag after it) with leading and trailing white space
  removed; if it has none, the answer is the whole response, unchanged.
\<close>

theorem answer_is_stripped_region_or_whole:
  assumes "dispatch_one E self registry agent = (es, Inr a)"
    and "registry (ans_name a) = Some agent_card"
    and "response = concat (fst (snd (send_message_to_an_agent E agent_card (ans_prompt a))))"
  shows "(response = pre @ answer_open @ inner @ answer_close @ post \<and>
            \<not> occurs answer_open (pre @ butlast answer_open) \<and>
            \<not> occurs answer_close (inner @ butlast answer_close)
          \<longrightarrow> ans_answer a = strip inner) \<and>
         ((\<exists>a b c. response = a @ answer_open @ b @ answer_close @ c)
          \<longrightarrow> (\<exists>pre' inner' post'.
                 response = pre' @ answer_open @ inner' @ answer_close @ post' \<and>
                 \<not> occurs answer_open (pre' @ butlast answer_open) \<and>
                 \<not> occurs answer_close (inner' @ butlast answer_close) \<and>
                 ans_answer a = strip inner')) \<and>
         (\<not> (\<exists>a b c. response = a @ answer_open @ b @ answer_close @ c)
          \<longrightarrow> ans_answer a = response)"
proof -
  from dispatch_one_answer [OF assms(1)] assms(2,3)
  have x: "ans_answer a = extract_answer response" by auto
  have "\<exists>pre' inner' post'.
          response = pre' @ answer_open @ inner' @ answer_close @ post' \<and>
          \<not> occurs answer_open (pre' @ butlast answer_open) \<and>
          \<not> occurs answer_close (inner' @ butlast answer_close) \<and>
          ans_answer a = strip inner'"
    if "\<exists>a b c. response = a @ answer_open @ b @ answer_close @ c"
  proof -
    from that obtain inner' where i: "re_search_group answer_open answer_close response = Some inner'"
      using re_search_group_some [OF fence_nonempty(3)] by blast
    then have "ans_answer a = strip inner'" using x by (simp add: extract_answer_def)
    with re_search_group_SomeD [OF fence_nonempty(3,4) i] show ?thesis by blast
  qed
  then show ?thesis
    using x extract_answer_region extract_answer_no_region by auto
qed

text \<open>
  Such a dispatch: the agent answers \<^verbatim>\<open><Answer> 42 </Answer>\<close> and the recorded answer is
  \<^verbatim>\<open>42\<close>; the agent answers \<^verbatim>\<open>po\<close>, \<^verbatim>\<open>ng\<close> and the recorded answer is \<^verbatim>\<open>pong\<close>.
\<close>

theorem answer_is_stripped_region_or_whole_witness:
  "snd (dispatch_one (demo_env [] [text_update ''<Answer> 42 </Answer>'']) demo_agent
          (registry_of [echo_card]) (selection ''echo'' ''hi''))
     = Inr \<lparr>ans_name = ''echo'', ans_prompt = ''hi'', ans_answer = ''42''\<rparr> \<and>
   ans_answer \<lparr>ans_name = ''echo'', ans_prompt = ''hi'', ans_answer = ''42''\<rparr> = strip '' 42 '' \<and>
   snd (dispatch_one (demo_env [] [text_update ''po'', text_update ''ng'']) demo_agent
          (registry_of [echo_card]) (selection ''echo'' ''hi''))
     = Inr \<lparr>ans_name = ''echo'', ans_prompt = ''hi'', ans_answer = ''pong''\<rparr> \<and>
   ans_answer \<lparr>ans_name = ''echo'', ans_prompt = ''hi'', ans_answer = ''pong''\<rparr> = ''pong''"
proof -
  let ?E = "demo_env [] [text_update ''<Answer> 42 </Answer>'']"
  let ?a = "\<lparr>ans_name = ''echo'', ans_prompt = ''hi'', ans_answer = ''42''\<rparr>"
  let ?es = "[Yield (agent_begin_marker ''echo''), Dispatch echo_card ''hi'',
              Yield ''<Answer> 42 </Answer>'', Yield agent_end_marker]"
  have d: "dispatch_one ?E demo_agent (registry_of [echo_card]) (selection ''echo'' ''hi'') = (?es, Inr ?a)"
    by code_simp
  have r: "registry_of [echo_card] (ans_name ?a) = Some echo_card"
    by (simp add: registry_of_def echo_card_def)
  have t: "''<Answer> 42 </Answer>'' = concat (fst (snd (send_message_to_an_agent ?E echo_card (ans_prompt ?a))))"
    by code_simp
  have s: "''<Answer> 42 </Answer>'' = [] @ answer_open @ '' 42 '' @ answer_close @ []"
    by (simp add: answer_open_def answer_close_def)
  have o1: "\<not> occurs answer_open ([] @ butlast answer_open)" unfolding occurs_code by code_simp
  have o2: "\<not> occurs answer_close ('' 42 '' @ butlast answer_close)" unfolding occurs_code by code_simp
  have w1: "ans_answer ?a = strip '' 42 ''"
    using answer_is_stripped_region_or_whole [OF d r t, of "[]" "'' 42 ''" "[]"] s o1 o2 by blast
  let ?E' = "demo_env [] [text_update ''po'', text_update ''ng'']"
  let ?a' = "\<lparr>ans_name = ''echo'', ans_prompt = ''hi'', ans_answer = ''pong''\<rparr>"
  let ?es' = "[Yield (agent_begin_marker ''echo''), Dispatch echo_card ''hi'',
              Yield ''po'', Yield ''ng'', Yield agent_end_marker]"
  have d': "dispatch_one ?E' demo_agent (registry_of [echo_card]) (selection ''echo'' ''hi'') = (?es', Inr ?a')"
    by code_simp
  have r': "registry_of [echo_card] (ans_name ?a') = Some echo_card"
    by (simp add: registry_of_def echo_card_def)
  have t': "''pong'' = concat (fst (snd (send_message_to_an_agent ?E' echo_card (ans_prompt ?a'))))"
    by code_simp
  have "re_search_group answer_open answer_close ''pong'' = None" by code_simp
  then have n': "\<not> (\<exists>a b c. ''pong'' = a @ answer_open @ b @ answer_close @ c)"
    using re_search_group_some [OF fence_nonempty(3)] by blast
  have w2: "ans_answer ?a' = ''pong''"
    using answer_is_stripped_region_or_whole [OF d' r' t', of "[]" "[]" "[]"] n' by blast
  show ?thesis using d d' w1 w2 by simp
qed

text \<open>
  Claim C3 as it was stated asks for the inner text exactly. The agent answers
  \<^verbatim>\<open><Answer> 42 </Answer>\<close>, whose inner text has a blank on each side; the recorded answer
  has none.
\<close>

theorem answer_is_exact_inner_text_counterexample:
  "concat (fst (snd (send_message_to_an_agent (demo_env [] [text_update ''<Answer> 42 </Answer>''])
                       echo_card ''hi'')))
     = answer_open @ '' 42 '' @ answer_close \<and>
   snd (dispatch_one (demo_env [] [text_update ''<Answer> 42 </Answer>'']) demo_agent
          (registry_of [echo_card]) (selection ''echo'' ''hi''))
     = Inr \<lparr>ans_name = ''echo'', ans_prompt = ''hi'', ans_answer = ''42''\<rparr> \<and>
   ''42'' \<noteq> '' 42 ''"
  by code_simp

section \<open>The agent-selection parser\<close>

text \<open>
  Claim C7. When the decision text has no delimited block (no opening fence followed by a
  closing fence), \<^verbatim>\<open>extract_agents\<close> returns the empty list, and the round that read this text
  is the last one: the run ends without exception, its events are those of this round up
  to the end of the decision text, and the answers are unchanged, however many rounds were
  left.
\<close>

theorem no_block_ends_the_loop:
  assumes "\<not> (\<exists>a b c. response = a @ json_fence_open @ b @ json_fence_close @ c)"
    and "get_agents E self = (es1, Inr (registry, agent_prompt))"
    and "decide E question agent_prompt agent_answers = (es2, g)"
    and "consume (token_stream_callback self) g = (es3, response, None)"
  shows "extract_agents E response = Inr (JArray []) \<and>
         stream_loop (Suc n) E self question agent_answers = (es1 @ es2 @ es3, agent_answers, None)"
proof -
  have x: "extract_agents E response = Inr (JArray [])"
    using re_search_group_none [OF assms(1)] by (simp add: extract_agents_def)
  have "stream_round E self question agent_answers = (es1 @ es2 @ es3, agent_answers, Return)"
    using stream_round_decided [OF assms(2-4)] x by simp
  with x show ?thesis by simp
qed

text \<open>Such a run: the model says \<^verbatim>\<open>no block\<close>; one round, three events, normal end.\<close>

theorem no_block_ends_the_loop_witness:
  "extract_agents (demo_env [''no block''] []) ''no block'' = Inr (JArray []) \<and>
   stream (demo_env [''no block''] []) demo_agent ''ping''
     = ([Resolve demo_url, Decide ''pingecho'', Yield ''no block''], [], None)"
proof -
  let ?E = "demo_env [''no block''] []"
  have "re_search_group json_fence_open json_fence_close ''no block'' = None" by code_simp
  then have h1: "\<not> (\<exists>a b c. ''no block'' = a @ json_fence_open @ b @ json_fence_close @ c)"
    using re_search_group_some [OF fence_nonempty(1)] by blast
  have h2: "get_agents ?E demo_agent = ([Resolve demo_url], Inr (registry_of [echo_card], ''echo''))"
    by (simp add: get_agents_def demo_agent_def Agent_init_def demo_env_def echo_card_def)
  have h3: "decide ?E ''ping'' ''echo'' [] = ([Decide ''pingecho''], ([''no block''], None))"
    by (simp add: decide_def call_llm_def stream_llm_def demo_env_def)
  have h4: "consume (token_stream_callback demo_agent) ([''no block''], None)
      = ([Yield ''no block''], ''no block'', None)"
    by (simp add: consume_def demo_agent_def Agent_init_def)
  show ?thesis
    using no_block_ends_the_loop [OF h1 h2 h3 h4, of 2]
    by (simp add: stream_def eval_nat_numeral)
qed



text \<open>
  Claim C2, as amended. When the first delimited block of the decision text holds a text
  that \<^verbatim>\<open>json.loads\<close> refuses, the exception of the decoder leaves \<^verbatim>\<open>extract_agents\<close> and ends
  the run: the events are those up to the end of the decision text, the answers are
  unchanged, and the run ends with that exception. When the block decodes to a list and,
  after selections that were dispatched, comes an object without \<^verbatim>\<open>name\<close>, the run ends with
  \<^verbatim>\<open>KeyError\<close> and no event for that object; when the object has a registered name and no
  \<^verbatim>\<open>prompt\<close>, the run ends with \<^verbatim>\<open>KeyError\<close> after its begin marker, before any request.
\<close>

theorem malformed_block_aborts_the_run:
  assumes "get_agents E self = (es1, Inr (registry, agent_prompt))"
    and "decide E question agent_prompt agent_answers = (es2, g)"
    and "consume (token_stream_callback self) g = (es3, response, None)"
    and "response = pre @ json_fence_open @ body @ json_fence_close @ post"
    and "\<not> occurs json_fence_open (pre @ butlast json_fence_open)"
    and "\<not> occurs json_fence_close (body @ butlast json_fence_close)"
  shows "(json_loads E body = Inl e \<longrightarrow>
            extract_agents E response = Inl e \<and>
            stream_loop (Suc k) E self question agent_answers
              = (es1 @ es2 @ es3, agent_answers, Some e)) \<and>
         (json_loads E body = Inr (JArray (earlier @ JObject kvs # later)) \<and>
          dispatch_all E self registry earlier = (es4, new, None) \<and>
          ''name'' \<notin> fst ` set kvs \<longrightarrow>
            stream_loop (Suc k) E self question agent_answers
              = (es1 @ es2 @ es3 @ es4, agent_answers @ new, Some KeyError)) \<and>
         (json_loads E body = Inr (JArray (earlier @ JObject kvs # later)) \<and>
          dispatch_all E self registry earlier = (es4, new, None) \<and>
          subscript (JObject kvs) ''name'' = Inr (JString n) \<and> registry n = Some c \<and>
          ''prompt'' \<notin> fst ` set kvs \<longrightarrow>
            stream_loop (Suc k) E self question agent_answers
              = (es1 @ es2 @ es3 @ es4 @ [Yield (agent_begin_marker n)],
                 agent_answers @ new, Some KeyError))"
proof -
  have x: "extract_agents E response = json_loads E body"
    using re_search_group_found [OF fence_nonempty(1,2) assms(5,6), of post] assms(4)
    by (simp add: extract_agents_def)
  have a: "json_loads E body = Inl e \<longrightarrow>
            extract_agents E response = Inl e \<and>
            stream_loop (Suc k) E self question agent_answers
              = (es1 @ es2 @ es3, agent_answers, Some e)"
    using stream_round_decided [OF assms(1-3)] x by simp
  have b: "json_loads E body = Inr (JArray (earlier @ JObject kvs # later)) \<and>
          dispatch_all E self registry earlier = (es4, new, None) \<and>
          ''name'' \<notin> fst ` set kvs \<longrightarrow>
            stream_loop (Suc k) E self question agent_answers
              = (es1 @ es2 @ es3 @ es4, agent_answers @ new, Some KeyError)"
  proof (intro impI, elim conjE)
    assume j: "json_loads E body = Inr (JArray (earlier @ JObject kvs # later))"
      and d: "dispatch_all E self registry earlier = (es4, new, None)"
      and m: "''name'' \<notin> fst ` set kvs"
    have "dispatch_one E self registry (JObject kvs) = ([], Inl KeyError)"
      using dispatch_one_no_name [OF subscript_missing [OF m]] .
    from stream_round_stops [OF assms(1-3) _ d this, of later] x j
    show "stream_loop (Suc k) E self question agent_answers
              = (es1 @ es2 @ es3 @ es4, agent_answers @ new, Some KeyError)" by simp
  qed
  have c: "json_loads E body = Inr (JArray (earlier @ JObject kvs # later)) \<and>
          dispatch_all E self registry earlier = (es4, new, None) \<and>
          subscript (JObject kvs) ''name'' = Inr (JString n) \<and> registry n = Some c \<and>
          ''prompt'' \<notin> fst ` set kvs \<longrightarrow>
            stream_loop (Suc k) E self question agent_answers
              = (es1 @ es2 @ es3 @ es4 @ [Yield (agent_begin_marker n)],
                 agent_answers @ new, Some KeyError)"
  proof (intro impI, elim conjE)
    assume j: "json_loads E body = Inr (JArray (earlier @ JObject kvs # later))"
      and d: "dispatch_all E self registry earlier = (es4, new, None)"
      and nm: "subscript (JObject kvs) ''name'' = Inr (JString n)"
      and r: "registry n = Some c"
      and m: "''prompt'' \<notin> fst ` set kvs"
    have "dispatch_one E self registry (JObject kvs) = ([Yield (agent_begin_marker n)], Inl KeyError)"
      using nm r subscript_missing [OF m] by (rule dispatch_one_no_prompt)
    from stream_round_stops [OF assms(1-3) _ d this, of later] x j
    show "stream_loop (Suc k) E self question agent_answers
              = (es1 @ es2 @ es3 @ es4 @ [Yield (agent_begin_marker n)],
                 agent_answers @ new, Some KeyError)" by simp
  qed
  from a b c show ?thesis by blast
qed

text \<open>
  Such runs: the block holds \<^verbatim>\<open>[\<close>; the block holds one object with a prompt only; the block
  holds one object with a name only.
\<close>

theorem malformed_block_aborts_the_run_witness:
  "stream (demo_env [fenced ''[''] []) demo_agent ''ping''
     = ([Resolve demo_url, Decide ''pingecho'', Yield (fenced ''['')], [], Some JSONDecodeError) \<and>
   stream (demo_env [fenced nameless] []) demo_agent ''ping''
     = ([Resolve demo_url, Decide ''pingecho'', Yield (fenced nameless)], [], Some KeyError) \<and>
   stream (demo_env [fenced promptless] []) demo_agent ''ping''
     = ([Resolve demo_url, Decide ''pingecho'', Yield (fenced promptless),
         Yield (agent_begin_marker ''echo'')], [], Some KeyError)"
proof -
  have o1: "\<not> occurs json_fence_open ([] @ butlast json_fence_open)"
    unfolding occurs_code by code_simp
  have d0: "dispatch_all E demo_agent (registry_of [echo_card]) [] = ([], [], None)" for E
    by simp
  \<comment> \<open>a text that is no JSON\<close>
  let ?E1 = "demo_env [fenced ''[''] []"
  have r1: "concat [fenced ''[''] = [] @ json_fence_open @ ''['' @ json_fence_close @ []"
    by (simp add: fenced_def)
  have c1: "\<not> occurs json_fence_close (''['' @ butlast json_fence_close)"
    unfolding occurs_code by code_simp
  have j1: "json_loads ?E1 ''['' = Inl JSONDecodeError" by code_simp
  have w1: "stream ?E1 demo_agent ''ping''
     = ([Resolve demo_url, Decide ''pingecho'', Yield (fenced ''['')], [], Some JSONDecodeError)"
    using malformed_block_aborts_the_run [where e = JSONDecodeError and k = 2,
        OF demo_get_agents demo_decide demo_consume r1 o1 c1] j1
    by (simp add: stream_def eval_nat_numeral)
  \<comment> \<open>an object without name\<close>
  let ?E2 = "demo_env [fenced nameless] []"
  have r2: "concat [fenced nameless] = [] @ json_fence_open @ nameless @ json_fence_close @ []"
    by (simp add: fenced_def)
  have c2: "\<not> occurs json_fence_close (nameless @ butlast json_fence_close)"
    unfolding occurs_code by code_simp
  have j2: "json_loads ?E2 nameless = Inr (JArray ([] @ JObject [(''prompt'', JString ''hi'')] # []))"
    by code_simp
  have m2: "''name'' \<notin> fst ` set [(''prompt'', JString ''hi'')]" by simp
  have w2: "stream ?E2 demo_agent ''ping''
     = ([Resolve demo_url, Decide ''pingecho'', Yield (fenced nameless)], [], Some KeyError)"
    using malformed_block_aborts_the_run [where k = 2 and earlier = "[]"
          and kvs = "[(''prompt'', JString ''hi'')]" and later = "[]" and ?es4.0 = "[]"
          and new = "[]",
        OF demo_get_agents demo_decide demo_consume r2 o1 c2] j2 m2 d0 [of ?E2]
    by (simp add: stream_def eval_nat_numeral)
  \<comment> \<open>an object without prompt\<close>
  let ?E3 = "demo_env [fenced promptless] []"
  have r3: "concat [fenced promptless] = [] @ json_fence_open @ promptless @ json_fence_close @ []"
    by (simp add: fenced_def)
  have c3: "\<not> occurs json_fence_close (promptless @ butlast json_fence_close)"
    unfolding occurs_code by code_simp
  have j3: "json_loads ?E3 promptless = Inr (JArray ([] @ JObject [(''name'', JString ''echo'')] # []))"
    by code_simp
  have n3: "subscript (JObject [(''name'', JString ''echo'')]) ''name'' = Inr (JString ''echo'')"
    by simp
  have m3: "''prompt'' \<notin> fst ` set [(''name'', JString ''echo'')]" by simp
  have w3: "stream ?E3 demo_agent ''ping''
     = ([Resolve demo_url, Decide ''pingecho'', Yield (fenced promptless),
         Yield (agent_begin_marker ''echo'')], [], Some KeyError)"
    using malformed_block_aborts_the_run [where k = 2 and earlier = "[]"
          and kvs = "[(''name'', JString ''echo'')]" and later = "[]" and ?es4.0 = "[]"
          and new = "[]" and n = "''echo''" and c = echo_card,
        OF demo_get_agents demo_decide demo_consume r3 o1 c3]
      j3 n3 m3 d0 [of ?E3] demo_registry(1)
    by (simp add: stream_def eval_nat_numeral)
  from w1 w2 w3 show ?thesis by simp
qed

text \<open>
  Claim C2 as it was stated asks for an empty selection and a normal end. For the block
  \<^verbatim>\<open>[\<close> the parser raises \<^verbatim>\<open>JSONDecodeError\<close> and so does the run; for an object without
  \<^verbatim>\<open>name\<close> the parser returns the object and the run ends with \<^verbatim>\<open>KeyError\<close>.
\<close>

theorem malformed_block_is_no_selection_counterexample:
  "extract_agents (demo_env [fenced ''[''] []) (fenced ''['') = Inl JSONDecodeError \<and>
   stream (demo_env [fenced ''[''] []) demo_agent ''ping''
     = ([Resolve demo_url, Decide ''pingecho'', Yield (fenced ''['')], [], Some JSONDecodeError) \<and>
   extract_agents (demo_env [fenced nameless] []) (fenced nameless)
     = Inr (JArray [JObject [(''prompt'', JString ''hi'')]]) \<and>
   stream (demo_env [fenced nameless] []) demo_agent ''ping''
     = ([Resolve demo_url, Decide ''pingecho'', Yield (fenced nameless)], [], Some KeyError)"
  by code_simp

section \<open>The orchestration loop\<close>

text \<open>
  Claim C1. A run of \<^verbatim>\<open>stream\<close> decides at most three times. When three rounds in a row
  selected agents and dispatched them all, the run is exactly these three rounds and then
  ends without exception: nothing is decided, dispatched or yielded after the third round,
  whatever the model would select next.
\<close>

theorem stream_at_most_three_rounds:
  "length (decides (fst (stream E self question))) \<le> 3 \<and>
   (let r1 = stream_round E self question [];
        r2 = stream_round E self question (fst (snd r1));
        r3 = stream_round E self question (fst (snd r2))
    in snd (snd r1) = Continue \<and> snd (snd r2) = Continue \<and> snd (snd r3) = Continue \<longrightarrow>
         stream E self question = (fst r1 @ fst r2 @ fst r3, fst (snd r3), None))"
proof -
  have a: "length (decides (fst (stream E self question))) \<le> 3"
    unfolding stream_def by (rule stream_loop_decides)
  obtain e1 a1 o1 where r1: "stream_round E self question [] = (e1, a1, o1)"
    using prod_cases3 by blast
  obtain e2 a2 o2 where r2: "stream_round E self question a1 = (e2, a2, o2)"
    using prod_cases3 by blast
  obtain e3 a3 o3 where r3: "stream_round E self question a2 = (e3, a3, o3)"
    using prod_cases3 by blast
  have "o1 = Continue \<and> o2 = Continue \<and> o3 = Continue \<longrightarrow>
          stream_loop (Suc (Suc (Suc 0))) E self question [] = (e1 @ e2 @ e3, a3, None)"
    using r1 r2 r3 by simp
  then show ?thesis using a r1 r2 r3 by (simp add: stream_def eval_nat_numeral Let_def)
qed

text \<open>
  Such a run: the model selects \<^verbatim>\<open>echo\<close> every time; three decisions, three answers, normal
  end.
\<close>

theorem stream_at_most_three_rounds_witness:
  "snd (snd (stream_round (demo_env [fenced echo_hi] [text_update ''pong'']) demo_agent ''ping'' []))
     = Continue \<and>
   decides (fst (stream (demo_env [fenced echo_hi] [text_update ''pong'']) demo_agent ''ping''))
     = [''pingecho'', ''pingechopong'', ''pingechopongpong''] \<and>
   snd (stream (demo_env [fenced echo_hi] [text_update ''pong'']) demo_agent ''ping'')
     = ([\<lparr>ans_name = ''echo'', ans_prompt = ''hi'', ans_answer = ''pong''\<rparr>,
         \<lparr>ans_name = ''echo'', ans_prompt = ''hi'', ans_answer = ''pong''\<rparr>,
         \<lparr>ans_name = ''echo'', ans_prompt = ''hi'', ans_answer = ''pong''\<rparr>], None)"
proof -
  let ?E = "demo_env [fenced echo_hi] [text_update ''pong'']"
  let ?r1 = "stream_round ?E demo_agent ''ping'' []"
  let ?r2 = "stream_round ?E demo_agent ''ping'' (fst (snd ?r1))"
  let ?r3 = "stream_round ?E demo_agent ''ping'' (fst (snd ?r2))"
  have h: "snd (snd ?r1) = Continue \<and> snd (snd ?r2) = Continue \<and> snd (snd ?r3) = Continue"
    by code_simp
  have "stream ?E demo_agent ''ping'' = (fst ?r1 @ fst ?r2 @ fst ?r3, fst (snd ?r3), None)"
    using stream_at_most_three_rounds [of ?E demo_agent "''ping''"] h by (simp add: Let_def)
  moreover have "decides (fst ?r1 @ fst ?r2 @ fst ?r3)
      = [''pingecho'', ''pingechopong'', ''pingechopongpong'']"
    by code_simp
  moreover have "fst (snd ?r3)
      = [\<lparr>ans_name = ''echo'', ans_prompt = ''hi'', ans_answer = ''pong''\<rparr>,
         \<lparr>ans_name = ''echo'', ans_prompt = ''hi'', ans_answer = ''pong''\<rparr>,
         \<lparr>ans_name = ''echo'', ans_prompt = ''hi'', ans_answer = ''pong''\<rparr>]"
    by code_simp
  ultimately show ?thesis using h by simp
qed

text \<open>
  Claim C4. When a selection names an agent that the registry of the round does not have,
  the lookup raises \<^verbatim>\<open>KeyError\<close> before anything is yielded or sent for this selection; the run
  ends with \<^verbatim>\<open>KeyError\<close>, its events and answers being those of the selections dispatched
  before, and neither the later selections of the round nor a later round is processed.
\<close>

theorem unknown_agent_aborts_the_run:
  assumes "get_agents E self = (es1, Inr (registry, agent_prompt))"
    and "decide E question agent_prompt agent_answers = (es2, g)"
    and "consume (token_stream_callback self) g = (es3, response, None)"
    and "extract_agents E response = Inr (JArray (earlier @ agent # later))"
    and "dispatch_all E self registry earlier = (es4, new, None)"
    and "subscript agent ''name'' = Inr (JString n)"
    and "registry n = None"
  shows "dispatch_one E self registry agent = ([], Inl KeyError) \<and>
         stream_loop (Suc k) E self question agent_answers
           = (es1 @ es2 @ es3 @ es4, agent_answers @ new, Some KeyError)"
proof -
  have d: "dispatch_one E self registry agent = ([], Inl KeyError)"
    using assms(6,7) by (rule dispatch_one_unknown)
  show ?thesis using stream_round_stops [OF assms(1-5) d] d by simp
qed

text \<open>
  Such a run: the model selects \<^verbatim>\<open>echo\<close>, \<^verbatim>\<open>ghost\<close>, \<^verbatim>\<open>echo\<close>; the first is dispatched and
  answered, then the run ends with \<^verbatim>\<open>KeyError\<close>.
\<close>

theorem unknown_agent_aborts_the_run_witness:
  "stream (demo_env [''Ask. '', fenced echo_ghost_echo] [text_update ''pong'']) demo_agent ''ping''
     = ([Resolve demo_url, Decide ''pingecho'', Yield ''Ask. '', Yield (fenced echo_ghost_echo),
         Yield (agent_begin_marker ''echo''), Dispatch echo_card ''hi'', Yield ''pong'',
         Yield agent_end_marker],
        [\<lparr>ans_name = ''echo'', ans_prompt = ''hi'', ans_answer = ''pong''\<rparr>],
        Some KeyError)"
proof -
  let ?E = "demo_env [''Ask. '', fenced echo_ghost_echo] [text_update ''pong'']"
  have h4: "extract_agents ?E (concat [''Ask. '', fenced echo_ghost_echo])
      = Inr (JArray ([selection ''echo'' ''hi''] @ selection ''ghost'' ''boo''
                       # [selection ''echo'' ''again'']))"
    by code_simp
  have h5: "dispatch_all ?E demo_agent (registry_of [echo_card]) [selection ''echo'' ''hi'']
      = ([Yield (agent_begin_marker ''echo''), Dispatch echo_card ''hi'', Yield ''pong'',
          Yield agent_end_marker],
         [\<lparr>ans_name = ''echo'', ans_prompt = ''hi'', ans_answer = ''pong''\<rparr>], None)"
    by code_simp
  have h6: "subscript (selection ''ghost'' ''boo'') ''name'' = Inr (JString ''ghost'')"
    by (simp add: selection_def)
  show ?thesis
    using unknown_agent_aborts_the_run [OF demo_get_agents demo_decide demo_consume h4 h5 h6
        demo_registry(2), of 2]
    by (simp add: stream_def eval_nat_numeral)
qed

text \<open>
  Claim C6. In a round that sends a request to an agent, the decision stream has ended
  before: the events up to the first begin marker contain no request and yield every
  fragment of the decision, in order. The events after them are the events of the
  selections, one selection after the other in the order of the selection list, each with
  at most one request. The answers of the round are appended to the list of answers, the
  \<open>i\<close>-th answer being that of the \<open>i\<close>-th selection and of the \<open>i\<close>-th request.
\<close>

theorem round_order:
  assumes "get_agents E self = (es1, Inr (registry, agent_prompt))"
    and "decide E question agent_prompt agent_answers = (es2, g)"
    and "stream_round E self question agent_answers = (es, answers', oc)"
    and "dispatches es \<noteq> []"
  shows "\<exists>es3 agents selections k new.
           es = es1 @ es2 @ es3 @
                concat (map (\<lambda>s. fst (dispatch_one E self registry s)) (take k selections)) \<and>
           dispatches (es1 @ es2 @ es3) = [] \<and> yields es3 = fst g \<and> snd g = None \<and>
           extract_agents E (concat (fst g)) = Inr agents \<and> py_iter agents = Inr selections \<and>
           k \<le> length selections \<and> length new \<le> k \<and>
           answers' = agent_answers @ new \<and>
           map Inr new
             = map (\<lambda>s. snd (dispatch_one E self registry s)) (take (length new) selections) \<and>
           (oc = Continue \<longrightarrow> length new = length selections) \<and>
           (\<forall>s. length (dispatches (fst (dispatch_one E self registry s))) \<le> 1) \<and>
           map (\<lambda>a. (registry (ans_name a), ans_prompt a)) new
             = map (\<lambda>(c, m). (Some c, m)) (take (length new) (dispatches es))"
proof -
  have d1: "dispatches es1 = []" using get_agents_events(2) [of E self] assms(1) by simp
  have d2: "dispatches es2 = []" using decide_events [OF assms(2)] by simp
  obtain es3 response x where c: "consume (token_stream_callback self) g = (es3, response, x)"
    using prod_cases3 by blast
  have d3: "dispatches es3 = []" using consume_eventsD [OF c] by simp
  have pre: "dispatches (es1 @ es2 @ es3) = []" using d1 d2 d3 by (simp add: dispatches_append)
  have x: "x = None"
  proof (cases x)
    case (Some e)
    then have "es = es1 @ es2 @ es3" using assms(1-3) c by (simp add: stream_round_def)
    with pre assms(4) show ?thesis by simp
  qed simp
  with c have c': "consume (token_stream_callback self) g = (es3, response, None)" by simp
  from consume_finished [OF c'] have f: "yields es3 = fst g" "response = concat (fst g)" "snd g = None"
    by simp_all
  note r = stream_round_decided [OF assms(1,2) c']
  show ?thesis
  proof (cases "extract_agents E response")
    case (Inl e)
    then have "es = es1 @ es2 @ es3" using r assms(3) by simp
    with pre assms(4) show ?thesis by simp
  next
    case (Inr agents)
    note ag = Inr
    show ?thesis
    proof (cases "truthy agents")
      case False
      then have "es = es1 @ es2 @ es3" using r assms(3) ag by simp
      with pre assms(4) show ?thesis by simp
    next
      case True
      show ?thesis
      proof (cases "py_iter agents")
        case (Inl e)
        then have "es = es1 @ es2 @ es3" using r assms(3) ag True by simp
        with pre assms(4) show ?thesis by simp
      next
        case (Inr selections)
        obtain es4 new y where da: "dispatch_all E self registry selections = (es4, new, y)"
          using prod_cases3 by blast
        have e: "es = es1 @ es2 @ es3 @ es4" "answers' = agent_answers @ new"
          "oc = Continue \<longrightarrow> y = None"
          using r assms(3) ag True Inr da by (cases y; simp)+
        from dispatch_all_shape [OF da] obtain k where k: "k \<le> length selections" "length new \<le> k"
          "es4 = concat (map (\<lambda>s. fst (dispatch_one E self registry s)) (take k selections))"
          "map Inr new = map (\<lambda>s. snd (dispatch_one E self registry s)) (take (length new) selections)"
          "y = None \<longrightarrow> length new = length selections"
          by blast
        have "es = es1 @ es2 @ es3 @
                concat (map (\<lambda>s. fst (dispatch_one E self registry s)) (take k selections)) \<and>
           dispatches (es1 @ es2 @ es3) = [] \<and> yields es3 = fst g \<and> snd g = None \<and>
           extract_agents E (concat (fst g)) = Inr agents \<and> py_iter agents = Inr selections \<and>
           k \<le> length selections \<and> length new \<le> k \<and>
           answers' = agent_answers @ new \<and>
           map Inr new
             = map (\<lambda>s. snd (dispatch_one E self registry s)) (take (length new) selections) \<and>
           (oc = Continue \<longrightarrow> length new = length selections) \<and>
           (\<forall>s. length (dispatches (fst (dispatch_one E self registry s))) \<le> 1) \<and>
           map (\<lambda>a. (registry (ans_name a), ans_prompt a)) new
             = map (\<lambda>(c, m). (Some c, m)) (take (length new) (dispatches es))"
          using e k pre f ag Inr dispatch_one_dispatches dispatch_all_dispatches [OF da]
          by (simp add: dispatches_append)
        then show ?thesis by blast
      qed
    qed
  qed
qed

text \<open>Such a round: the model selects \<^verbatim>\<open>echo\<close> twice, with the prompts \<^verbatim>\<open>one\<close> and \<^verbatim>\<open>two\<close>.\<close>

theorem round_order_witness:
  "stream_round (demo_env [''Ask both. '', fenced echo_one_two] [text_update ''pong''])
       demo_agent ''ping'' []
     = ([Resolve demo_url, Decide ''pingecho'', Yield ''Ask both. '', Yield (fenced echo_one_two),
         Yield (agent_begin_marker ''echo''), Dispatch echo_card ''one'', Yield ''pong'',
         Yield agent_end_marker,
         Yield (agent_begin_marker ''echo''), Dispatch echo_card ''two'', Yield ''pong'',
         Yield agent_end_marker],
        [\<lparr>ans_name = ''echo'', ans_prompt = ''one'', ans_answer = ''pong''\<rparr>,
         \<lparr>ans_name = ''echo'', ans_prompt = ''two'', ans_answer = ''pong''\<rparr>],
        Continue) \<and>
   map ans_prompt
       [\<lparr>ans_name = ''echo'', ans_prompt = ''one'', ans_answer = ''pong''\<rparr>,
        \<lparr>ans_name = ''echo'', ans_prompt = ''two'', ans_answer = ''pong''\<rparr>]
     = map snd (take 2 (dispatches
         [Resolve demo_url, Decide ''pingecho'', Yield ''Ask both. '', Yield (fenced echo_one_two),
          Yield (agent_begin_marker ''echo''), Dispatch echo_card ''one'', Yield ''pong'',
          Yield agent_end_marker,
          Yield (agent_begin_marker ''echo''), Dispatch echo_card ''two'', Yield ''pong'',
          Yield agent_end_marker]))"
proof -
  let ?E = "demo_env [''Ask both. '', fenced echo_one_two] [text_update ''pong'']"
  let ?es = "[Resolve demo_url, Decide ''pingecho'', Yield ''Ask both. '', Yield (fenced echo_one_two),
         Yield (agent_begin_marker ''echo''), Dispatch echo_card ''one'', Yield ''pong'',
         Yield agent_end_marker,
         Yield (agent_begin_marker ''echo''), Dispatch echo_card ''two'', Yield ''pong'',
         Yield agent_end_marker]"
  let ?ans = "[\<lparr>ans_name = ''echo'', ans_prompt = ''one'', ans_answer = ''pong''\<rparr>,
        \<lparr>ans_name = ''echo'', ans_prompt = ''two'', ans_answer = ''pong''\<rparr>]"
  have h3: "stream_round ?E demo_agent ''ping'' [] = (?es, ?ans, Continue)" by code_simp
  have h4: "dispatches ?es \<noteq> []" by simp
  from round_order [OF demo_get_agents demo_decide h3 h4]
  obtain new where n: "?ans = [] @ new"
    "map (\<lambda>a. (registry_of [echo_card] (ans_name a), ans_prompt a)) new
       = map (\<lambda>(c, m). (Some c, m)) (take (length new) (dispatches ?es))"
    by blast
  from n(1) have new: "new = ?ans" by simp
  have "map snd (map (\<lambda>a. (registry_of [echo_card] (ans_name a), ans_prompt a)) new)
      = map snd (map (\<lambda>(c, m). (Some c, m)) (take (length new) (dispatches ?es)))"
    using n(2) by simp
  then have "map ans_prompt new = map snd (take (length new) (dispatches ?es))"
    by (simp add: comp_def case_prod_unfold)
  with new h3 show ?thesis by simp
qed

end
